theory Spec2Isabelle
  imports Main "HOL-Library.Sublist"
begin

section \<open>Python values of the command-line layer\<close>

text \<open>
  The values that travel through \<^verbatim>\<open>improver.cli\<close>: \<^verbatim>\<open>None\<close>, plain strings, lists and
  tuples, other objects (a cube, a number; known by the module and name of their type and an
  identity), and instances of \<^verbatim>\<open>ObjectAsStr\<close>. An \<^verbatim>\<open>ObjectAsStr\<close> is a \<^verbatim>\<open>str\<close> with one slot,
  \<^verbatim>\<open>original_object\<close>; the model gives every instance the number under which it was
  allocated, so that two instances made by two constructions differ, as they do for
  Python's \<^verbatim>\<open>is\<close>.
\<close>

datatype pyval =
    PNone
  | PStr string
  | PList "pyval list"
  | PTuple "pyval list"
  | PObj string string nat
  | PCarrier nat string pyval

text \<open>
  Exceptions. \<open>MismatchedBracket i\<close> is
  \<^verbatim>\<open>ValueError('Mismatched bracket at position %i.' % i)\<close>, \<open>CannotMixVelocities\<close> and
  \<open>NotCleanlyDivisible\<close> are the two \<^verbatim>\<open>ValueError\<close>s of \<^verbatim>\<open>nowcast_extrapolate.process\<close>,
  and \<open>Raised e\<close> is any other exception, by its name.
\<close>

datatype error =
    MismatchedBracket nat
  | CannotMixVelocities
  | NotCleanlyDivisible int int
  | Raised string

section \<open>The bracket parser\<close>

text \<open>
  \<^verbatim>\<open>unbracket\<close>: the loop \<^verbatim>\<open>for i in range(0, len(args))\<close> with its two variables
  \<^verbatim>\<open>outargs\<close> and \<^verbatim>\<open>stack\<close>. \<^verbatim>\<open>stack.append(outargs)\<close> is \<open>stack @ [outargs]\<close>,
  \<^verbatim>\<open>stack[-1].append(outargs); outargs = stack.pop()\<close> leaves \<open>last stack @ [PList outargs]\<close>
  as the current frame and \<open>butlast stack\<close> as the stack.
\<close>

function unbracket_loop ::
  "string list \<Rightarrow> nat \<Rightarrow> pyval list \<Rightarrow> pyval list list \<Rightarrow> error + pyval list" where
  "unbracket_loop args i outargs stack =
     (if i < length args then
        (if args ! i = ''['' then unbracket_loop args (Suc i) [] (stack @ [outargs])
         else if args ! i = '']'' then
           (if stack = [] then Inl (MismatchedBracket i)
            else unbracket_loop args (Suc i) (last stack @ [PList outargs]) (butlast stack))
         else unbracket_loop args (Suc i) (outargs @ [PStr (args ! i)]) stack)
      else if stack \<noteq> [] then Inl (MismatchedBracket (length args))
      else Inr outargs)"
  by pat_completeness auto
termination
  by (relation "measure (\<lambda>(args, i, outargs, stack). length args - i)") auto

definition unbracket :: "string list \<Rightarrow> error + pyval list" where
  "unbracket args = unbracket_loop args 0 [] []"

text \<open>
  The flattening traversals of a nested list: \<open>flatten\<close> lists the leaves and has no
  bracket markers; \<open>rebracket\<close> writes the markers back around every nested list.
\<close>

fun flatten_val :: "pyval \<Rightarrow> string list" where
  "flatten_val (PStr s) = [s]"
| "flatten_val (PList xs) = concat (map flatten_val xs)"
| "flatten_val (PTuple xs) = concat (map flatten_val xs)"
| "flatten_val (PCarrier k n obj) = [n]"
| "flatten_val PNone = []"
| "flatten_val (PObj m t k) = []"

definition flatten :: "pyval list \<Rightarrow> string list" where
  "flatten xs = concat (map flatten_val xs)"

fun rebracket_val :: "pyval \<Rightarrow> string list" where
  "rebracket_val (PStr s) = [s]"
| "rebracket_val (PList xs) = ''['' # concat (map rebracket_val xs) @ ['']'']"
| "rebracket_val (PTuple xs) = ''['' # concat (map rebracket_val xs) @ ['']'']"
| "rebracket_val (PCarrier k n obj) = [n]"
| "rebracket_val PNone = []"
| "rebracket_val (PObj m t k) = []"

definition rebracket :: "pyval list \<Rightarrow> string list" where
  "rebracket xs = concat (map rebracket_val xs)"

definition is_bracket :: "string \<Rightarrow> bool" where
  "is_bracket a = (a = ''['' \<or> a = '']'')"

text \<open>
  Bracket depth of a token list read from depth \<open>d\<close>: \<open>None\<close> when a \<^verbatim>\<open>]\<close> comes at
  depth 0. A token list is balanced when its depth from 0 ends at 0.
\<close>

fun depth_from :: "nat \<Rightarrow> string list \<Rightarrow> nat option" where
  "depth_from d [] = Some d"
| "depth_from d (a # as) =
     (if a = ''['' then depth_from (Suc d) as
      else if a = '']'' then (case d of 0 \<Rightarrow> None | Suc d' \<Rightarrow> depth_from d' as)
      else depth_from d as)"

definition balanced :: "string list \<Rightarrow> bool" where
  "balanced ts = (depth_from 0 ts = Some 0)"

text \<open>The loop of \<open>unbracket\<close> on the tokens still to read, for the proofs.\<close>

fun scan :: "nat \<Rightarrow> string list \<Rightarrow> nat \<Rightarrow> pyval list \<Rightarrow> pyval list list \<Rightarrow> error + pyval list" where
  "scan n [] i outargs stack =
     (if stack \<noteq> [] then Inl (MismatchedBracket n) else Inr outargs)"
| "scan n (a # as) i outargs stack =
     (if a = ''['' then scan n as (Suc i) [] (stack @ [outargs])
      else if a = '']'' then
        (if stack = [] then Inl (MismatchedBracket i)
         else scan n as (Suc i) (last stack @ [PList outargs]) (butlast stack))
      else scan n as (Suc i) (outargs @ [PStr a]) stack)"

definition frames :: "pyval list list \<Rightarrow> string list" where
  "frames stack = concat (map (\<lambda>f. rebracket f @ [''['']) stack)"

section \<open>The opaque value carrier\<close>

text \<open>
  \<^verbatim>\<open>'%i' % n\<close>: the decimal digits of an integer.
\<close>

function show_nat :: "nat \<Rightarrow> string" where
  "show_nat n =
     (if n < 10 then [''0123456789'' ! n]
      else show_nat (n div 10) @ [''0123456789'' ! (n mod 10)])"
  by pat_completeness auto
termination
  by (relation "measure (\<lambda>n. n)") auto

definition show_int :: "int \<Rightarrow> string" where
  "show_int i = (if i < 0 then CHR ''-'' # show_nat (nat (- i)) else show_nat (nat i))"

text \<open>\<^verbatim>\<open>type(obj).__module__\<close> and \<^verbatim>\<open>type(obj).__name__\<close>.\<close>

fun type_of :: "pyval \<Rightarrow> string \<times> string" where
  "type_of PNone = (''builtins'', ''NoneType'')"
| "type_of (PStr s) = (''builtins'', ''str'')"
| "type_of (PList xs) = (''builtins'', ''list'')"
| "type_of (PTuple xs) = (''builtins'', ''tuple'')"
| "type_of (PObj m t k) = (m, t)"
| "type_of (PCarrier k n obj) = (''improver.cli'', ''ObjectAsStr'')"

text \<open>
  \<^verbatim>\<open>ObjectAsStr.object2name(obj, cls=None)\<close>. The number in the name is \<^verbatim>\<open>hash(obj)\<close>, or
  \<^verbatim>\<open>id(obj)\<close> where hashing raises \<^verbatim>\<open>TypeError\<close>, as it does for every list. Both are the
  interpreter's choice, and \<^verbatim>\<open>id\<close> belongs to the object, not to its value: two list
  objects with the same elements have different numbers. So the function \<open>ident\<close> that gives
  the number is a parameter, and it takes, besides the value, the number \<open>k\<close> of
  \<^verbatim>\<open>ObjectAsStr\<close> instances allocated when the object is named. In \<^verbatim>\<open>execute_command\<close>
  an object that cannot be hashed is named when it is the result of an invocation: in the
  \<^verbatim>\<open>print\<close> of that invocation and, with nothing allocated in between, when the enclosing
  invocation wraps it, which allocates. So among the objects that cannot be hashed the
  same \<open>k\<close> names the same object, and two of them, with equal elements or not, are
  named under different \<open>k\<close> and may have any two numbers. For an object that can be
  hashed the number is the same under every \<open>k\<close>; the parameter allows more, and what
  is proved for every \<open>ident\<close> holds for those.
\<close>

definition object2name ::
  "(nat \<Rightarrow> pyval \<Rightarrow> int) \<Rightarrow> nat \<Rightarrow> pyval \<Rightarrow> (string \<times> string) option \<Rightarrow> string" where
  "object2name ident k obj cls =
     (let c = (case cls of None \<Rightarrow> type_of obj | Some c' \<Rightarrow> c')
      in ''<'' @ fst c @ ''.'' @ snd c @ ''@'' @ show_int (ident k obj) @ ''>'')"

text \<open>\<^verbatim>\<open>isinstance(x, str)\<close>, and the text of \<open>x\<close> when it holds.\<close>

fun as_str :: "pyval \<Rightarrow> string option" where
  "as_str (PStr s) = Some s"
| "as_str (PCarrier k n obj) = Some n"
| "as_str PNone = None"
| "as_str (PList xs) = None"
| "as_str (PTuple xs) = None"
| "as_str (PObj m t k) = None"

definition isinstance_str :: "pyval \<Rightarrow> bool" where
  "isinstance_str x = (as_str x \<noteq> None)"

fun is_carrier :: "pyval \<Rightarrow> bool" where
  "is_carrier (PCarrier k n obj) = True"
| "is_carrier PNone = False"
| "is_carrier (PStr s) = False"
| "is_carrier (PList xs) = False"
| "is_carrier (PTuple xs) = False"
| "is_carrier (PObj m t k) = False"

text \<open>
  \<^verbatim>\<open>getattr(x, 'original_object', x)\<close>: only an \<^verbatim>\<open>ObjectAsStr\<close> has the attribute.
\<close>

fun original_object :: "pyval \<Rightarrow> pyval" where
  "original_object (PCarrier k n obj) = obj"
| "original_object PNone = PNone"
| "original_object (PStr s) = PStr s"
| "original_object (PList xs) = PList xs"
| "original_object (PTuple xs) = PTuple xs"
| "original_object (PObj m t k) = PObj m t k"

text \<open>
  \<^verbatim>\<open>ObjectAsStr.__new__(cls, obj, name=None)\<close>. The last argument is the number of
  \<^verbatim>\<open>ObjectAsStr\<close> instances allocated so far; the result is the instance and the new count.
  The new instance takes that number, and its wrapped object is named under it.
\<close>

definition ObjectAsStr ::
  "(nat \<Rightarrow> pyval \<Rightarrow> int) \<Rightarrow> pyval \<Rightarrow> string option \<Rightarrow> nat \<Rightarrow> pyval \<times> nat" where
  "ObjectAsStr ident obj name k =
     (if is_carrier obj then (obj, k)
      else (PCarrier k (case name of None \<Rightarrow> object2name ident k obj None | Some n \<Rightarrow> n) obj,
            Suc k))"

section \<open>Effects\<close>

text \<open>
  What the code does to the outside is a trace of events, in the order they happen, and a
  state \<open>world\<close> of the outside, of any type, that the functions from outside this
  package read and change. \<open>next_obj\<close> counts the \<^verbatim>\<open>ObjectAsStr\<close> instances allocated.
\<close>

datatype event =
    Dispatched string "pyval list"
  | Printed "pyval list"
  | Converted pyval
  | Called "pyval list" "(string \<times> pyval) list"
  | Saved pyval pyval
  | ResolvedWind pyval pyval
  | Extrapolated "pyval list" int int
  | PoppedHistory pyval
  | Merged "pyval list"

record 'w state =
  world :: 'w
  trace :: "event list"
  next_obj :: nat

type_synonym ('a, 'w) result = "(error + 'a) \<times> 'w state"

text \<open>A call of a function from outside: the event is logged, then the function runs.\<close>

definition extern :: "event \<Rightarrow> ('w \<Rightarrow> (error + 'a) \<times> 'w) \<Rightarrow> 'w state \<Rightarrow> ('a, 'w) result" where
  "extern ev f s =
     (case f (world s) of (r, w) \<Rightarrow> (r, s\<lparr>world := w, trace := trace s @ [ev]\<rparr>))"

definition print :: "pyval list \<Rightarrow> 'w state \<Rightarrow> 'w state" where
  "print items s = s\<lparr>trace := trace s @ [Printed items]\<rparr>"

section \<open>The coercion adapter\<close>

text \<open>
  \<^verbatim>\<open>maybe_coerce_with(convert, obj, **kwargs)\<close>; \<open>convert\<close> stands for the converter with
  its keyword arguments.
\<close>

definition maybe_coerce_with ::
  "(pyval \<Rightarrow> 'w \<Rightarrow> (error + pyval) \<times> 'w) \<Rightarrow> pyval \<Rightarrow> 'w state \<Rightarrow> (pyval, 'w) result" where
  "maybe_coerce_with convert obj s =
     (let obj' = original_object obj
      in if isinstance_str obj' then extern (Converted obj') (convert obj') s
         else (Inr obj', s))"

section \<open>The composition evaluator\<close>

type_synonym 'w dispatcher = "string \<Rightarrow> pyval list \<Rightarrow> 'w \<Rightarrow> (error + pyval) \<times> 'w"

text \<open>
  \<^verbatim>\<open>execute_command(dispatcher, progname, *args, verbose=False, dry_run=False)\<close>.
  \<open>resolve_args\<close> is the loop \<^verbatim>\<open>for i, arg in enumerate(args)\<close>, which ends with
  \<^verbatim>\<open>args[i] = arg\<close>; an exception in it, or in the dispatcher, leaves the function.
\<close>

function execute_command ::
    "(nat \<Rightarrow> pyval \<Rightarrow> int) \<Rightarrow> 'w dispatcher \<Rightarrow> string \<Rightarrow> pyval list \<Rightarrow> bool \<Rightarrow> bool \<Rightarrow> 'w state
     \<Rightarrow> (pyval, 'w) result"
  and resolve_args ::
    "(nat \<Rightarrow> pyval \<Rightarrow> int) \<Rightarrow> 'w dispatcher \<Rightarrow> string \<Rightarrow> pyval list \<Rightarrow> bool \<Rightarrow> bool \<Rightarrow> 'w state
     \<Rightarrow> (pyval list, 'w) result"
where
  "execute_command ident dispatcher progname args verbose dry_run s =
     (case resolve_args ident dispatcher progname args verbose dry_run s of
        (Inl e, s1) \<Rightarrow> (Inl e, s1)
      | (Inr args', s1) \<Rightarrow>
          (case (if dry_run then (Inr (PList args'), s1)
                 else extern (Dispatched progname args') (dispatcher progname args') s1) of
             (Inl e, s2) \<Rightarrow> (Inl e, s2)
           | (Inr result, s2) \<Rightarrow>
               (Inr result,
                if verbose \<or> dry_run
                then print (PStr progname # args' @
                            [PStr '' -> '',
                             PStr (object2name ident (next_obj s2) result None)]) s2
                else s2)))"
| "resolve_args ident dispatcher progname [] verbose dry_run s = (Inr [], s)"
| "resolve_args ident dispatcher progname (arg # rest) verbose dry_run s =
     (case (case arg of
              PList xs \<Rightarrow> execute_command ident dispatcher progname xs verbose dry_run s
            | PTuple xs \<Rightarrow> execute_command ident dispatcher progname xs verbose dry_run s
            | _ \<Rightarrow> (Inr arg, s)) of
        (Inl e, s1) \<Rightarrow> (Inl e, s1)
      | (Inr arg1, s1) \<Rightarrow>
          (case (if \<not> isinstance_str arg1
                 then (case ObjectAsStr ident arg1 None (next_obj s1) of
                         (c, k) \<Rightarrow> (c, s1\<lparr>next_obj := k\<rparr>))
                 else (arg1, s1)) of
             (arg2, s2) \<Rightarrow>
               (case resolve_args ident dispatcher progname rest verbose dry_run s2 of
                  (Inl e, s3) \<Rightarrow> (Inl e, s3)
                | (Inr rest', s3) \<Rightarrow> (Inr (arg2 # rest'), s3))))"
  by pat_completeness auto
termination
  by (relation "measure (\<lambda>x. case x of
         Inl (ident, dispatcher, progname, args, rest) \<Rightarrow> 2 * size_list size args + 1
       | Inr (ident, dispatcher, progname, args, rest) \<Rightarrow> 2 * size_list size args)") auto

text \<open>
  \<^verbatim>\<open>main(progname, command, *args, verbose=False, dry_run=False)\<close> of \<^verbatim>\<open>improver.cli\<close>:
  the tokens after the command are parsed, then the whole line is evaluated.
\<close>

definition main ::
  "(nat \<Rightarrow> pyval \<Rightarrow> int) \<Rightarrow> 'w dispatcher \<Rightarrow> string \<Rightarrow> string \<Rightarrow> string list \<Rightarrow> bool \<Rightarrow> bool \<Rightarrow> 'w state
   \<Rightarrow> (pyval, 'w) result" where
  "main ident dispatcher progname command args verbose dry_run s =
     (case unbracket args of
        Inl e \<Rightarrow> (Inl e, s)
      | Inr nested \<Rightarrow>
          execute_command ident dispatcher progname (PStr command # nested) verbose dry_run s)"

text \<open>
  The invocations of a nested argument list in the order innermost first, siblings left to
  right: those of the nested lists among the elements, from the first element to the last,
  then the list itself. What the claims on ordering are measured against.
\<close>

fun invocations_val :: "pyval \<Rightarrow> pyval list list" where
  "invocations_val (PList xs) = concat (map invocations_val xs) @ [xs]"
| "invocations_val (PTuple xs) = concat (map invocations_val xs) @ [xs]"
| "invocations_val PNone = []"
| "invocations_val (PStr s) = []"
| "invocations_val (PObj m t k) = []"
| "invocations_val (PCarrier k n obj) = []"

definition invocations :: "pyval list \<Rightarrow> pyval list list" where
  "invocations args = concat (map invocations_val args) @ [args]"

fun dispatched_args :: "event \<Rightarrow> pyval list option" where
  "dispatched_args (Dispatched p args) = Some args"
| "dispatched_args (Printed items) = None"
| "dispatched_args (Converted x) = None"
| "dispatched_args (Called args kwargs) = None"
| "dispatched_args (Saved x y) = None"
| "dispatched_args (ResolvedWind x y) = None"
| "dispatched_args (Extrapolated xs a b) = None"
| "dispatched_args (PoppedHistory x) = None"
| "dispatched_args (Merged xs) = None"

text \<open>The argument lists of the dispatcher calls of a trace, in order.\<close>

definition dispatches :: "event list \<Rightarrow> pyval list list" where
  "dispatches tr = List.map_filter dispatched_args tr"

fun printed_items :: "event \<Rightarrow> pyval list option" where
  "printed_items (Printed items) = Some items"
| "printed_items (Dispatched p args) = None"
| "printed_items (Converted x) = None"
| "printed_items (Called args kwargs) = None"
| "printed_items (Saved x y) = None"
| "printed_items (ResolvedWind x y) = None"
| "printed_items (Extrapolated xs a b) = None"
| "printed_items (PoppedHistory x) = None"
| "printed_items (Merged xs) = None"

definition prints :: "event list \<Rightarrow> pyval list list" where
  "prints tr = List.map_filter printed_items tr"

text \<open>
  The two steps of the loop body of \<open>resolve_args\<close>, named for the proofs: the nested
  command is executed, and what is not a string is wrapped.
\<close>

definition resolve_one ::
  "(nat \<Rightarrow> pyval \<Rightarrow> int) \<Rightarrow> 'w dispatcher \<Rightarrow> string \<Rightarrow> pyval \<Rightarrow> bool \<Rightarrow> bool \<Rightarrow> 'w state
   \<Rightarrow> (pyval, 'w) result" where
  "resolve_one ident dispatcher progname arg verbose dry_run s =
     (case arg of
        PList xs \<Rightarrow> execute_command ident dispatcher progname xs verbose dry_run s
      | PTuple xs \<Rightarrow> execute_command ident dispatcher progname xs verbose dry_run s
      | _ \<Rightarrow> (Inr arg, s))"

definition wrap_nonstr :: "(nat \<Rightarrow> pyval \<Rightarrow> int) \<Rightarrow> pyval \<Rightarrow> 'w state \<Rightarrow> pyval \<times> 'w state" where
  "wrap_nonstr ident arg1 s1 =
     (if \<not> isinstance_str arg1
      then (case ObjectAsStr ident arg1 None (next_obj s1) of
              (c, k) \<Rightarrow> (c, s1\<lparr>next_obj := k\<rparr>))
      else (arg1, s1))"

text \<open>
  \<open>passed orig a\<close>: \<open>a\<close> can stand where \<open>orig\<close> stood once the loop is over. A string
  (plain or carrier) is passed as it is; anything else has become a string.
\<close>

definition passed :: "pyval \<Rightarrow> pyval \<Rightarrow> bool" where
  "passed orig a = (if isinstance_str orig then a = orig else isinstance_str a)"

text \<open>
  What a run without \<^verbatim>\<open>dry_run\<close> has added to the trace: its dispatcher calls are
  those of an initial part of \<open>invs\<close>, one each and in that order, and of all of
  \<open>invs\<close> when the run succeeded (\<open>ok\<close>).
\<close>

definition calls_post :: "pyval list list \<Rightarrow> 'w state \<Rightarrow> bool \<Rightarrow> 'w state \<Rightarrow> bool" where
  "calls_post invs s ok s' =
     (\<exists>new. trace s' = trace s @ new
        \<and> list_all2 (list_all2 passed) (take (length (dispatches new)) invs) (dispatches new)
        \<and> (ok \<longrightarrow> length (dispatches new) = length invs))"

text \<open>
  What a dry run puts in the place of an argument: a string stays; a nested list becomes a
  carrier around the list of what the dry run put in the place of its elements, with the
  name of that list object as its text; any other object becomes a carrier around it. The
  name is the one given under the carrier's own number.
\<close>

fun dry_echo :: "(nat \<Rightarrow> pyval \<Rightarrow> int) \<Rightarrow> pyval \<Rightarrow> pyval \<Rightarrow> bool" where
  "dry_echo ident (PStr s) a = (a = PStr s)"
| "dry_echo ident (PCarrier k n obj) a = (a = PCarrier k n obj)"
| "dry_echo ident (PList xs) a =
     (case a of
        PCarrier k n (PList ys) \<Rightarrow>
          n = object2name ident k (PList ys) None \<and> list_all2 (dry_echo ident) xs ys
      | _ \<Rightarrow> False)"
| "dry_echo ident (PTuple xs) a =
     (case a of
        PCarrier k n (PList ys) \<Rightarrow>
          n = object2name ident k (PList ys) None \<and> list_all2 (dry_echo ident) xs ys
      | _ \<Rightarrow> False)"
| "dry_echo ident PNone a =
     (case a of PCarrier k n obj \<Rightarrow> n = object2name ident k PNone None \<and> obj = PNone
      | _ \<Rightarrow> False)"
| "dry_echo ident (PObj m t i) a =
     (case a of
        PCarrier k n obj \<Rightarrow> n = object2name ident k (PObj m t i) None \<and> obj = PObj m t i
      | _ \<Rightarrow> False)"

text \<open>
  The items printed by \<^verbatim>\<open>print(progname, *args, ' -> ', ObjectAsStr.object2name(result))\<close>
  in a dry run, where the result is the argument list, printed while \<open>k\<close> carriers are
  allocated; \<open>echoes\<close>: a printed line is the echo of an invocation.
\<close>

definition echo ::
  "(nat \<Rightarrow> pyval \<Rightarrow> int) \<Rightarrow> string \<Rightarrow> nat \<Rightarrow> pyval list \<Rightarrow> pyval list" where
  "echo ident progname k args' =
     PStr progname # args' @ [PStr '' -> '', PStr (object2name ident k (PList args') None)]"

definition echoes :: "(nat \<Rightarrow> pyval \<Rightarrow> int) \<Rightarrow> string \<Rightarrow> pyval list \<Rightarrow> pyval list \<Rightarrow> bool" where
  "echoes ident progname orig line =
     (list_all2 (dry_echo ident) orig (butlast (butlast (tl line)))
      \<and> (\<exists>k. line = echo ident progname k (butlast (butlast (tl line)))))"

text \<open>
  What a dry run does to the state: it prints the lines, allocates carriers, and nothing
  else.
\<close>

definition dry_post ::
  "(nat \<Rightarrow> pyval \<Rightarrow> int) \<Rightarrow> string \<Rightarrow> pyval list list \<Rightarrow> 'w state \<Rightarrow> 'w state \<Rightarrow> pyval list list \<Rightarrow> bool" where
  "dry_post ident p invs s s' lines =
     (s' = s\<lparr>trace := trace s @ map Printed lines, next_obj := next_obj s'\<rparr>
      \<and> list_all2 (echoes ident p) invs lines)"

section \<open>The output finalizer\<close>

text \<open>Truth value of \<^verbatim>\<open>if x:\<close>. Objects of other types (a cube) define neither
  \<^verbatim>\<open>__bool__\<close> nor \<^verbatim>\<open>__len__\<close> and are true.\<close>

fun truthy :: "pyval \<Rightarrow> bool" where
  "truthy PNone = False"
| "truthy (PStr s) = (s \<noteq> [])"
| "truthy (PList xs) = (xs \<noteq> [])"
| "truthy (PTuple xs) = (xs \<noteq> [])"
| "truthy (PObj m t k) = True"
| "truthy (PCarrier k n obj) = (n \<noteq> [])"

text \<open>
  \<^verbatim>\<open>with_output(wrapped, *args, output=None, **kwargs)\<close>; \<^verbatim>\<open>save_netcdf\<close> comes from
  \<^verbatim>\<open>improver.utilities.save\<close>.
\<close>

definition with_output ::
  "(pyval list \<Rightarrow> (string \<times> pyval) list \<Rightarrow> 'w \<Rightarrow> (error + pyval) \<times> 'w)
   \<Rightarrow> (pyval \<Rightarrow> pyval \<Rightarrow> 'w \<Rightarrow> (error + unit) \<times> 'w)
   \<Rightarrow> pyval list \<Rightarrow> pyval \<Rightarrow> (string \<times> pyval) list \<Rightarrow> 'w state \<Rightarrow> (pyval, 'w) result" where
  "with_output wrapped save_netcdf args output kwargs s =
     (case extern (Called args kwargs) (wrapped args kwargs) s of
        (Inl e, s1) \<Rightarrow> (Inl e, s1)
      | (Inr result, s1) \<Rightarrow>
          if truthy output then
            (case extern (Saved result output) (save_netcdf result output) s1 of
               (Inl e, s2) \<Rightarrow> (Inl e, s2)
             | (Inr u, s2) \<Rightarrow> (Inr PNone, s2))
          else (Inr result, s1))"

fun saved_to :: "event \<Rightarrow> (pyval \<times> pyval) option" where
  "saved_to (Saved x dest) = Some (x, dest)"
| "saved_to (Dispatched p args) = None"
| "saved_to (Printed items) = None"
| "saved_to (Converted x) = None"
| "saved_to (Called args kwargs) = None"
| "saved_to (ResolvedWind x y) = None"
| "saved_to (Extrapolated xs a b) = None"
| "saved_to (PoppedHistory x) = None"
| "saved_to (Merged xs) = None"

text \<open>What a trace persisted: the results saved and their destinations, in order.\<close>

definition saves :: "event list \<Rightarrow> (pyval \<times> pyval) list" where
  "saves tr = List.map_filter saved_to tr"

section \<open>The generic output option\<close>

text \<open>\<^verbatim>\<open>s.partition(c)\<close> for a separator of one character.\<close>

fun partition_char :: "char \<Rightarrow> string \<Rightarrow> string \<times> string \<times> string" where
  "partition_char c [] = ([], [], [])"
| "partition_char c (x # xs) =
     (if x = c then ([], [c], xs)
      else (case partition_char c xs of (h, sep, t) \<Rightarrow> (x # h, sep, t)))"

text \<open>
  \<^verbatim>\<open>preprocess_command(progname, command, *args)\<close> of \<^verbatim>\<open>clize_framework\<close>. The loop is
  \<^verbatim>\<open>for i, arg in enumerate(args, 1)\<close>: \<open>i\<close> starts at 1, and the first argument that starts
  with \<^verbatim>\<open>--output\<close> ends it.
\<close>

fun preprocess_loop :: "pyval list \<Rightarrow> nat \<Rightarrow> pyval list \<Rightarrow> pyval list" where
  "preprocess_loop args i [] = []"
| "preprocess_loop args i (arg # rest) =
     (case as_str arg of
        None \<Rightarrow> preprocess_loop args (Suc i) rest
      | Some text \<Rightarrow>
          if prefix ''--output'' text then
            (case partition_char CHR ''='' text of
               (before, sep, output) \<Rightarrow>
                 if sep = [] then
                   (if i + 1 < length args then [PStr ''--output'', args ! (i + 1)]
                    else [PStr ''--output'', PStr []])
                 else [PStr ''--output'', PStr output])
          else preprocess_loop args (Suc i) rest)"

definition preprocess_command ::
  "string \<Rightarrow> pyval \<Rightarrow> pyval list \<Rightarrow> pyval \<times> pyval list \<times> pyval list" where
  "preprocess_command progname command args = (command, args, preprocess_loop args 1 args)"

text \<open>\<^verbatim>\<open>xs.index(t)\<close> for a string \<open>t\<close>: the first place whose element equals it.\<close>

fun py_index :: "pyval list \<Rightarrow> string \<Rightarrow> nat option" where
  "py_index [] t = None"
| "py_index (x # xs) t =
     (if as_str x = Some t then Some 0 else map_option Suc (py_index xs t))"

text \<open>\<^verbatim>\<open>postprocess_command(progname, result, *post_args)\<close>.\<close>

definition postprocess_command :: "string \<Rightarrow> pyval \<Rightarrow> pyval list \<Rightarrow> pyval" where
  "postprocess_command progname result post_args =
     (case py_index post_args ''--output'' of
        None \<Rightarrow> result
      | Some k \<Rightarrow> if k + 1 < length post_args then PNone else result)"

section \<open>The extrapolation command\<close>







section \<open>Sample inputs\<close>

text \<open>
  For the examples: an interpreter in which every \<^verbatim>\<open>hash\<close> and \<^verbatim>\<open>id\<close> is 0, one in
  which the objects named have the numbers 140, 141 and so on, a state
  with nothing done yet, a cube, a converter that loads a cube whatever the path, a command
  that returns a cube, a \<^verbatim>\<open>save_netcdf\<close> that succeeds, a dispatcher whose commands return a
  cube, one whose commands return text, and an extrapolation that succeeds.
\<close>

definition ident0 :: "nat \<Rightarrow> pyval \<Rightarrow> int" where
  "ident0 k obj = 0"

definition ident1 :: "nat \<Rightarrow> pyval \<Rightarrow> int" where
  "ident1 k obj = 140 + int k"

definition s0 :: "unit state" where
  "s0 = \<lparr>world = (), trace = [], next_obj = 0\<rparr>"

definition cube0 :: pyval where
  "cube0 = PObj ''iris.cube'' ''Cube'' 7"

definition load0 :: "pyval \<Rightarrow> unit \<Rightarrow> (error + pyval) \<times> unit" where
  "load0 path w = (Inr cube0, w)"

definition command0 :: "pyval list \<Rightarrow> (string \<times> pyval) list \<Rightarrow> unit \<Rightarrow> (error + pyval) \<times> unit" where
  "command0 args kwargs w = (Inr cube0, w)"

definition save0 :: "pyval \<Rightarrow> pyval \<Rightarrow> unit \<Rightarrow> (error + unit) \<times> unit" where
  "save0 result dest w = (Inr (), w)"

definition dispatcher0 :: "unit dispatcher" where
  "dispatcher0 progname args w = (Inr cube0, w)"

definition dispatcher_text :: "unit dispatcher" where
  "dispatcher_text progname args w = (Inr (PStr ''some text''), w)"


declare unbracket_loop.simps [simp del]
declare show_nat.simps [simp del]
declare execute_command.simps [simp del]
declare resolve_args.simps(2) [simp del]

section \<open>Properties of the bracket parser\<close>

lemma unbracket_loop_scan:
  "i \<le> length args \<Longrightarrow>
   unbracket_loop args i outargs stack = scan (length args) (drop i args) i outargs stack"
proof (induction args i outargs stack rule: unbracket_loop.induct)
  case (1 args i outargs stack)
  show ?case
  proof (cases "i < length args")
    case True
    then have d: "drop i args = args ! i # drop (Suc i) args"
      by (simp add: Cons_nth_drop_Suc)
    from True have le: "Suc i \<le> length args" by simp
    show ?thesis
      using True "1.IH" le
      by (subst unbracket_loop.simps) (simp add: d)
  next
    case False
    with "1.prems" have "i = length args" by simp
    then show ?thesis by (subst unbracket_loop.simps) simp
  qed
qed

lemma frames_snoc: "frames (st @ [f]) = frames st @ rebracket f @ [''['']"
  by (simp add: frames_def)

lemma rebracket_snoc: "rebracket (xs @ [x]) = rebracket xs @ rebracket_val x"
  by (simp add: rebracket_def)

lemma flatten_snoc: "flatten (xs @ [x]) = flatten xs @ flatten_val x"
  by (simp add: flatten_def)

lemma scan_rebracket:
  "scan n rest i outargs stack = Inr t \<Longrightarrow>
   rebracket t = frames stack @ rebracket outargs @ rest"
proof (induction rest arbitrary: i outargs stack)
  case Nil
  then show ?case by (simp add: frames_def split: if_splits)
next
  case (Cons a as)
  show ?case
  proof (cases "a = ''[''")
    case True
    with Cons.prems have "scan n as (Suc i) [] (stack @ [outargs]) = Inr t" by simp
    from Cons.IH[OF this] True show ?thesis
      by (simp add: frames_snoc rebracket_def)
  next
    case nopen: False
    show ?thesis
    proof (cases "a = '']''")
      case True
      with Cons.prems have ne: "stack \<noteq> []"
        and s: "scan n as (Suc i) (last stack @ [PList outargs]) (butlast stack) = Inr t"
        by (auto split: if_splits)
      from ne have st: "stack = butlast stack @ [last stack]" by simp
      have "frames stack = frames (butlast stack) @ rebracket (last stack) @ [''['']"
        by (subst st) (rule frames_snoc)
      with Cons.IH[OF s] True show ?thesis
        by (simp add: rebracket_snoc rebracket_def)
    next
      case False
      with nopen Cons.prems have "scan n as (Suc i) (outargs @ [PStr a]) stack = Inr t" by simp
      from Cons.IH[OF this] show ?thesis by (simp add: rebracket_snoc)
    qed
  qed
qed

lemma scan_flatten:
  "scan n rest i outargs stack = Inr t \<Longrightarrow>
   flatten t = concat (map flatten stack) @ flatten outargs @ filter (\<lambda>a. \<not> is_bracket a) rest"
proof (induction rest arbitrary: i outargs stack)
  case Nil
  then show ?case by (simp split: if_splits)
next
  case (Cons a as)
  show ?case
  proof (cases "a = ''[''")
    case True
    with Cons.prems have "scan n as (Suc i) [] (stack @ [outargs]) = Inr t" by simp
    from Cons.IH[OF this] True show ?thesis
      by (simp add: is_bracket_def flatten_def)
  next
    case nopen: False
    show ?thesis
    proof (cases "a = '']''")
      case True
      with Cons.prems have ne: "stack \<noteq> []"
        and s: "scan n as (Suc i) (last stack @ [PList outargs]) (butlast stack) = Inr t"
        by (auto split: if_splits)
      from ne have st: "stack = butlast stack @ [last stack]" by simp
      have "concat (map flatten stack) = concat (map flatten (butlast stack)) @ flatten (last stack)"
        by (subst st) simp
      with Cons.IH[OF s] True show ?thesis
        by (simp add: flatten_snoc is_bracket_def) (simp add: flatten_def)
    next
      case False
      with nopen Cons.prems have "scan n as (Suc i) (outargs @ [PStr a]) stack = Inr t" by simp
      from Cons.IH[OF this] False nopen show ?thesis by (simp add: flatten_snoc is_bracket_def)
    qed
  qed
qed

lemma scan_balanced:
  "depth_from (length stack) rest = Some 0 \<Longrightarrow> \<exists>t. scan n rest i outargs stack = Inr t"
proof (induction rest arbitrary: i outargs stack)
  case Nil
  then show ?case by simp
next
  case (Cons a as)
  show ?case
  proof (cases "a = ''[''")
    case True
    with Cons.prems have "depth_from (length (stack @ [outargs])) as = Some 0" by simp
    from Cons.IH[OF this] True show ?thesis by simp
  next
    case nopen: False
    show ?thesis
    proof (cases "a = '']''")
      case True
      with Cons.prems obtain d where d: "length stack = Suc d" "depth_from d as = Some 0"
        by (auto split: nat.splits)
      then have "depth_from (length (butlast stack)) as = Some 0" by simp
      from Cons.IH[OF this] d True show ?thesis by auto
    next
      case False
      with nopen Cons.prems Cons.IH show ?thesis by simp
    qed
  qed
qed

lemma scan_unclosed:
  "depth_from (length stack) rest = Some (Suc d) \<Longrightarrow>
   scan n rest i outargs stack = Inl (MismatchedBracket n)"
proof (induction rest arbitrary: i outargs stack)
  case Nil
  then show ?case by auto
next
  case (Cons a as)
  show ?case
  proof (cases "a = ''[''")
    case True
    with Cons.prems have "depth_from (length (stack @ [outargs])) as = Some (Suc d)" by simp
    from Cons.IH[OF this] True show ?thesis by simp
  next
    case nopen: False
    show ?thesis
    proof (cases "a = '']''")
      case True
      with Cons.prems obtain e where e: "length stack = Suc e" "depth_from e as = Some (Suc d)"
        by (auto split: nat.splits)
      then have "depth_from (length (butlast stack)) as = Some (Suc d)" by simp
      from Cons.IH[OF this] e True show ?thesis by auto
    next
      case False
      with nopen Cons.prems Cons.IH show ?thesis by simp
    qed
  qed
qed

lemma scan_unopened:
  "depth_from (length stack) pre = Some 0 \<Longrightarrow>
   scan n (pre @ '']'' # post) i outargs stack = Inl (MismatchedBracket (i + length pre))"
proof (induction pre arbitrary: i outargs stack)
  case Nil
  then show ?case by simp
next
  case (Cons a as)
  show ?case
  proof (cases "a = ''[''")
    case True
    with Cons.prems have "depth_from (length (stack @ [outargs])) as = Some 0" by simp
    from Cons.IH[OF this] True show ?thesis by simp
  next
    case nopen: False
    show ?thesis
    proof (cases "a = '']''")
      case True
      with Cons.prems obtain e where e: "length stack = Suc e" "depth_from e as = Some 0"
        by (auto split: nat.splits)
      then have "depth_from (length (butlast stack)) as = Some 0" by simp
      from Cons.IH[OF this] e True show ?thesis by auto
    next
      case False
      with nopen Cons.prems Cons.IH show ?thesis by simp
    qed
  qed
qed

text \<open>
  Claim C1. For every token list with balanced brackets, \<open>unbracket\<close> returns a nested
  list, and flattening it reproduces the tokens in their order: with the bracket markers
  written back (\<open>rebracket\<close>) it is the token list itself, and without them (\<open>flatten\<close>)
  it is the token list with its \<^verbatim>\<open>[\<close> and \<^verbatim>\<open>]\<close> removed.
\<close>

theorem unbracket_round_trip:
  "balanced tokens \<Longrightarrow>
   \<exists>nested. unbracket tokens = Inr nested
     \<and> rebracket nested = tokens
     \<and> flatten nested = filter (\<lambda>a. \<not> is_bracket a) tokens"
proof -
  assume "balanced tokens"
  then have "depth_from (length ([] :: pyval list list)) tokens = Some 0"
    by (simp add: balanced_def)
  from scan_balanced[OF this]
  obtain t where t: "scan (length tokens) tokens 0 [] [] = Inr t" by blast
  have u: "unbracket tokens = Inr t"
    using t by (simp add: unbracket_def unbracket_loop_scan)
  from scan_rebracket[OF t] have "rebracket t = tokens"
    by (simp add: frames_def rebracket_def)
  moreover from scan_flatten[OF t] have "flatten t = filter (\<lambda>a. \<not> is_bracket a) tokens"
    by (simp add: flatten_def)
  ultimately show ?thesis using u by blast
qed

theorem unbracket_round_trip_witness:
  "balanced [''foo'', ''['', ''bar'', ''a'', ''b'', '']'', ''['', ''baz'', ''c'', '']'', ''-o'', ''z'']
   \<and> (\<exists>nested.
        unbracket [''foo'', ''['', ''bar'', ''a'', ''b'', '']'', ''['', ''baz'', ''c'', '']'', ''-o'', ''z'']
          = Inr nested
        \<and> rebracket nested
          = [''foo'', ''['', ''bar'', ''a'', ''b'', '']'', ''['', ''baz'', ''c'', '']'', ''-o'', ''z'']
        \<and> flatten nested = [''foo'', ''bar'', ''a'', ''b'', ''baz'', ''c'', ''-o'', ''z''])"
proof -
  have b: "balanced [''foo'', ''['', ''bar'', ''a'', ''b'', '']'', ''['', ''baz'', ''c'', '']'', ''-o'', ''z'']"
    by (simp add: balanced_def)
  from unbracket_round_trip[OF b] b show ?thesis
    by (simp add: is_bracket_def)
qed

lemma unbracket_docstring:
  "unbracket [''foo'', ''['', ''bar'', ''a'', ''b'', '']'', ''['', ''baz'', ''c'', '']'', ''-o'', ''z'']
   = Inr [PStr ''foo'', PList [PStr ''bar'', PStr ''a'', PStr ''b''],
          PList [PStr ''baz'', PStr ''c''], PStr ''-o'', PStr ''z'']"
  by (simp add: unbracket_def unbracket_loop_scan)

text \<open>
  Claim C2. \<open>unbracket\<close> raises the mismatched-bracket error with the position of a
  \<^verbatim>\<open>]\<close> that comes while the stack is empty (the tokens before it are balanced), and
  with the length of the input when the scan ends inside an open bracket; \<^verbatim>\<open>['a', ']']\<close>
  raises at 1 and \<^verbatim>\<open>['a', '[']\<close> at 2; a balanced input raises nothing.
\<close>

theorem unbracket_mismatch:
  "unbracket [''a'', '']''] = Inl (MismatchedBracket 1)
   \<and> unbracket [''a'', ''[''] = Inl (MismatchedBracket 2)
   \<and> (i < length ts \<and> ts ! i = '']'' \<and> depth_from 0 (take i ts) = Some 0
        \<longrightarrow> unbracket ts = Inl (MismatchedBracket i))
   \<and> (depth_from 0 us = Some (Suc d)
        \<longrightarrow> unbracket us = Inl (MismatchedBracket (length us)))
   \<and> (balanced vs \<longrightarrow> (\<exists>nested. unbracket vs = Inr nested))"
proof (intro conjI impI)
  show "unbracket [''a'', '']''] = Inl (MismatchedBracket 1)"
    by (simp add: unbracket_def unbracket_loop_scan)
  show "unbracket [''a'', ''[''] = Inl (MismatchedBracket 2)"
    by (simp add: unbracket_def unbracket_loop_scan)
next
  assume a: "i < length ts \<and> ts ! i = '']'' \<and> depth_from 0 (take i ts) = Some 0"
  then have ts: "ts = take i ts @ '']'' # drop (Suc i) ts"
    by (metis id_take_nth_drop)
  from a have "depth_from (length ([] :: pyval list list)) (take i ts) = Some 0" by simp
  from scan_unopened[OF this, of "length ts" "drop (Suc i) ts" 0 "[]"] a
  have "scan (length ts) (take i ts @ '']'' # drop (Suc i) ts) 0 [] [] = Inl (MismatchedBracket i)"
    by simp
  with ts have "scan (length ts) ts 0 [] [] = Inl (MismatchedBracket i)" by simp
  then show "unbracket ts = Inl (MismatchedBracket i)"
    by (simp add: unbracket_def unbracket_loop_scan)
next
  assume "depth_from 0 us = Some (Suc d)"
  then have "depth_from (length ([] :: pyval list list)) us = Some (Suc d)" by simp
  from scan_unclosed[OF this]
  show "unbracket us = Inl (MismatchedBracket (length us))"
    by (simp add: unbracket_def unbracket_loop_scan)
next
  assume "balanced vs"
  then have "depth_from (length ([] :: pyval list list)) vs = Some 0"
    by (simp add: balanced_def)
  from scan_balanced[OF this]
  show "\<exists>nested. unbracket vs = Inr nested"
    by (simp add: unbracket_def unbracket_loop_scan)
qed

theorem unbracket_mismatch_witness:
  "(1 < length [''a'', '']'', ''b''] \<and> [''a'', '']'', ''b''] ! 1 = '']''
      \<and> depth_from 0 (take 1 [''a'', '']'', ''b'']) = Some 0)
   \<and> unbracket [''a'', '']'', ''b''] = Inl (MismatchedBracket 1)
   \<and> depth_from 0 [''['', ''a'', ''['', ''b'', '']''] = Some (Suc 0)
   \<and> unbracket [''['', ''a'', ''['', ''b'', '']''] = Inl (MismatchedBracket 5)
   \<and> balanced [''a'', ''['', ''b'', '']'', ''c'']
   \<and> (\<exists>nested. unbracket [''a'', ''['', ''b'', '']'', ''c''] = Inr nested)"
proof -
  have h1: "1 < length [''a'', '']'', ''b''] \<and> [''a'', '']'', ''b''] ! 1 = '']''
      \<and> depth_from 0 (take 1 [''a'', '']'', ''b'']) = Some 0"
    by simp
  have h2: "depth_from 0 [''['', ''a'', ''['', ''b'', '']''] = Some (Suc 0)" by simp
  have h3: "balanced [''a'', ''['', ''b'', '']'', ''c'']" by (simp add: balanced_def)
  from unbracket_mismatch[of 1 "[''a'', '']'', ''b'']" "[''['', ''a'', ''['', ''b'', '']'']" 0
      "[''a'', ''['', ''b'', '']'', ''c'']"] h1 h2 h3
  show ?thesis by simp
qed

section \<open>Properties of the carrier, the adapter and the wrappers\<close>

lemma show_int_0: "show_int 0 = ''0''"
  by (simp add: show_int_def show_nat.simps)

lemma extern_trace: "trace (snd (extern ev f s)) = trace s @ [ev]"
  by (simp add: extern_def split: prod.splits)

lemma extern_eq:
  "f (world s) = (r, w) \<Longrightarrow> extern ev f s = (r, s\<lparr>world := w, trace := trace s @ [ev]\<rparr>)"
  by (simp add: extern_def)

text \<open>
  Claim C3, as amended. Wrapping is idempotent: constructing an \<^verbatim>\<open>ObjectAsStr\<close> from the
  carrier that \<^verbatim>\<open>ObjectAsStr(x)\<close> returned gives that same carrier, and allocates nothing.
  The carrier's \<^verbatim>\<open>original_object\<close> is \<open>x\<close> when \<open>x\<close> is not a carrier; when \<open>x\<close> is
  itself a carrier, \<^verbatim>\<open>ObjectAsStr(x)\<close> is \<open>x\<close> and the wrapped object is the one \<open>x\<close> wraps.
\<close>

theorem ObjectAsStr_idempotent:
  "ObjectAsStr ident x name k = (c, k') \<Longrightarrow>
     ObjectAsStr ident c name' k' = (c, k')
     \<and> is_carrier c
     \<and> original_object c = (if is_carrier x then original_object x else x)
     \<and> (is_carrier x \<longrightarrow> c = x \<and> k' = k)"
  by (auto simp: ObjectAsStr_def split: if_splits)

theorem ObjectAsStr_idempotent_witness:
  "ObjectAsStr ident0 cube0 None 0 = (PCarrier 0 ''<iris.cube.Cube@0>'' cube0, 1)
   \<and> ObjectAsStr ident0 (PCarrier 0 ''<iris.cube.Cube@0>'' cube0) None 1
       = (PCarrier 0 ''<iris.cube.Cube@0>'' cube0, 1)
   \<and> original_object (PCarrier 0 ''<iris.cube.Cube@0>'' cube0) = cube0"
proof -
  have h: "ObjectAsStr ident0 cube0 None 0 = (PCarrier 0 ''<iris.cube.Cube@0>'' cube0, 1)"
    by (simp add: ObjectAsStr_def object2name_def ident0_def cube0_def show_int_0)
  from ObjectAsStr_idempotent[OF h, of None] h show ?thesis
    by (simp add: cube0_def)
qed

text \<open>
  Claim C3 as stated fails where \<open>x\<close> is a carrier: the carrier returned wraps the cube,
  not \<open>x\<close>.
\<close>

theorem ObjectAsStr_original_object_counterexample:
  "ObjectAsStr ident0 (PCarrier 0 ''<iris.cube.Cube@0>'' cube0) None 1
     = (PCarrier 0 ''<iris.cube.Cube@0>'' cube0, 1)
   \<and> original_object
        (fst (ObjectAsStr ident0
               (fst (ObjectAsStr ident0 (PCarrier 0 ''<iris.cube.Cube@0>'' cube0) None 1))
               None 1))
       \<noteq> PCarrier 0 ''<iris.cube.Cube@0>'' cube0"
  by (simp add: ObjectAsStr_def cube0_def)

text \<open>
  Claim C6, as amended. \<open>maybe_coerce_with\<close> first takes the wrapped object of a carrier.
  A carrier around an object that is not a string passes that object through, and so does
  any other value that is not a string: the converter is not applied and nothing changes.
  A plain string is converted. The converter is applied exactly when the value left after
  unwrapping is a string, which includes a string held in a carrier.
\<close>

theorem maybe_coerce_with_cases:
  "(\<not> isinstance_str x \<longrightarrow> maybe_coerce_with convert (PCarrier k n x) s = (Inr x, s))
   \<and> (\<not> isinstance_str y \<longrightarrow> maybe_coerce_with convert y s = (Inr y, s))
   \<and> maybe_coerce_with convert (PStr path) s
       = extern (Converted (PStr path)) (convert (PStr path)) s
   \<and> (isinstance_str (original_object z) \<longrightarrow>
        maybe_coerce_with convert z s
          = extern (Converted (original_object z)) (convert (original_object z)) s)
   \<and> trace (snd (maybe_coerce_with convert obj s))
       = trace s @ (if isinstance_str (original_object obj)
                    then [Converted (original_object obj)] else [])"
proof (intro conjI impI)
  assume "\<not> isinstance_str y"
  then have "original_object y = y"
    by (cases y) (simp_all add: isinstance_str_def)
  with \<open>\<not> isinstance_str y\<close> show "maybe_coerce_with convert y s = (Inr y, s)"
    by (simp add: maybe_coerce_with_def)
qed (simp_all add: maybe_coerce_with_def isinstance_str_def extern_trace Let_def)

theorem maybe_coerce_with_cases_witness:
  "\<not> isinstance_str cube0
   \<and> maybe_coerce_with load0 (PCarrier 0 ''<iris.cube.Cube@0>'' cube0) s0 = (Inr cube0, s0)
   \<and> maybe_coerce_with load0 cube0 s0 = (Inr cube0, s0)
   \<and> isinstance_str (original_object (PStr ''a.nc''))
   \<and> maybe_coerce_with load0 (PStr ''a.nc'') s0
       = (Inr cube0, s0\<lparr>trace := [Converted (PStr ''a.nc'')]\<rparr>)"
proof -
  have h1: "\<not> isinstance_str cube0" by (simp add: isinstance_str_def cube0_def)
  have h2: "isinstance_str (original_object (PStr ''a.nc''))" by (simp add: isinstance_str_def)
  from maybe_coerce_with_cases[of cube0 load0 0 "''<iris.cube.Cube@0>''" s0 cube0 "''a.nc''"
      "PStr ''a.nc''" cube0] h1 h2
  show ?thesis
    by (simp add: extern_def load0_def s0_def)
qed

text \<open>
  Claim C6 as stated fails for a carrier made from a string: the converter is applied to
  the wrapped string, and what comes back is the converter's result.
\<close>

theorem maybe_coerce_with_counterexample:
  "ObjectAsStr ident0 (PStr ''a.nc'') None 0 = (PCarrier 0 ''<builtins.str@0>'' (PStr ''a.nc''), 1)
   \<and> original_object (PCarrier 0 ''<builtins.str@0>'' (PStr ''a.nc'')) = PStr ''a.nc''
   \<and> maybe_coerce_with load0 (PCarrier 0 ''<builtins.str@0>'' (PStr ''a.nc'')) s0
       = (Inr cube0, s0\<lparr>trace := [Converted (PStr ''a.nc'')]\<rparr>)
   \<and> cube0 \<noteq> PStr ''a.nc''"
  by (simp add: ObjectAsStr_def object2name_def ident0_def show_int_0 maybe_coerce_with_def
      isinstance_str_def extern_def load0_def s0_def cube0_def)

lemma saves_append: "saves (xs @ ys) = saves xs @ saves ys"
  by (simp add: saves_def map_filter_def)

text \<open>
  Claim C7. When the wrapped command returns a result: with an output destination (a
  non-empty path) that \<^verbatim>\<open>save_netcdf\<close> accepts, \<open>with_output\<close> saves the result there and
  returns \<^verbatim>\<open>None\<close>; without one (\<^verbatim>\<open>None\<close>, or an empty path) it returns the result itself
  and saves nothing. \<open>postprocess_command\<close> likewise returns \<^verbatim>\<open>None\<close> after an
  \<^verbatim>\<open>--output\<close> pair and the result without one.
\<close>

theorem with_output_contract:
  "wrapped args kwargs (world s) = (Inr result, w1) \<Longrightarrow>
     (truthy output \<and> save_netcdf result output w1 = (Inr (), w2) \<longrightarrow>
        with_output wrapped save_netcdf args output kwargs s
          = (Inr PNone,
             s\<lparr>world := w2, trace := trace s @ [Called args kwargs, Saved result output]\<rparr>)
        \<and> saves (trace (snd (with_output wrapped save_netcdf args output kwargs s)))
            = saves (trace s) @ [(result, output)])
     \<and> (\<not> truthy output \<longrightarrow>
          with_output wrapped save_netcdf args output kwargs s
            = (Inr result, s\<lparr>world := w1, trace := trace s @ [Called args kwargs]\<rparr>)
          \<and> saves (trace (snd (with_output wrapped save_netcdf args output kwargs s)))
              = saves (trace s))
     \<and> postprocess_command progname result [PStr ''--output'', dest] = PNone
     \<and> postprocess_command progname result [] = result"
  by (simp add: with_output_def extern_def saves_append postprocess_command_def)
     (simp add: saves_def map_filter_def)

theorem with_output_contract_witness:
  "command0 [PStr ''in.nc''] [] (world s0) = (Inr cube0, ())
   \<and> truthy (PStr ''out.nc'') \<and> save0 cube0 (PStr ''out.nc'') () = (Inr (), ())
   \<and> with_output command0 save0 [PStr ''in.nc''] (PStr ''out.nc'') [] s0
       = (Inr PNone, s0\<lparr>trace := [Called [PStr ''in.nc''] [], Saved cube0 (PStr ''out.nc'')]\<rparr>)
   \<and> \<not> truthy PNone
   \<and> with_output command0 save0 [PStr ''in.nc''] PNone [] s0
       = (Inr cube0, s0\<lparr>trace := [Called [PStr ''in.nc''] []]\<rparr>)"
proof -
  have h: "command0 [PStr ''in.nc''] [] (world s0) = (Inr cube0, ())"
    by (simp add: command0_def)
  have g: "save0 cube0 (PStr ''out.nc'') () = (Inr (), ())" by (simp add: save0_def)
  from with_output_contract[where ?wrapped = command0 and ?args = "[PStr ''in.nc'']"
         and ?kwargs = "[]" and ?s = s0 and ?result = cube0 and ?w1.0 = "()"
         and ?output = "PStr ''out.nc''" and ?save_netcdf = save0 and ?w2.0 = "()"]
       with_output_contract[where ?wrapped = command0 and ?args = "[PStr ''in.nc'']"
         and ?kwargs = "[]" and ?s = s0 and ?result = cube0 and ?w1.0 = "()"
         and ?output = PNone and ?save_netcdf = save0 and ?w2.0 = "()"]
       h g
  show ?thesis by (simp add: s0_def)
qed

text \<open>
  Claim C8, evaluated. From \<^verbatim>\<open>--output=out.nc\<close> the destination is \<^verbatim>\<open>out.nc\<close>; from
  \<^verbatim>\<open>--output out.nc\<close> it is the empty string, and with a further token it is that token:
  the loop counts from 1 and reads \<^verbatim>\<open>args[i + 1]\<close>, one place past the token that follows
  \<^verbatim>\<open>--output\<close>.
\<close>

theorem preprocess_command_output_forms:
  "preprocess_command progname command [PStr ''--output=out.nc'']
     = (command, [PStr ''--output=out.nc''], [PStr ''--output'', PStr ''out.nc''])
   \<and> preprocess_command progname command [PStr ''--output'', PStr ''out.nc'']
     = (command, [PStr ''--output'', PStr ''out.nc''], [PStr ''--output'', PStr ''''])
   \<and> preprocess_command progname command [PStr ''--output'', PStr ''out.nc'', PStr ''-v'']
     = (command, [PStr ''--output'', PStr ''out.nc'', PStr ''-v''],
        [PStr ''--output'', PStr ''-v''])"
  by (simp add: preprocess_command_def)






section \<open>Properties of the composition evaluator\<close>

lemma resolve_args_Cons:
  "resolve_args ident d p (arg # rest) v dr s =
     (case resolve_one ident d p arg v dr s of
        (Inl e, s1) \<Rightarrow> (Inl e, s1)
      | (Inr arg1, s1) \<Rightarrow>
          (case wrap_nonstr ident arg1 s1 of
             (arg2, s2) \<Rightarrow>
               (case resolve_args ident d p rest v dr s2 of
                  (Inl e, s3) \<Rightarrow> (Inl e, s3)
                | (Inr rest', s3) \<Rightarrow> (Inr (arg2 # rest'), s3))))"
  unfolding resolve_one_def wrap_nonstr_def by (rule resolve_args.simps(2))

lemma not_str_not_carrier: "\<not> isinstance_str a \<Longrightarrow> \<not> is_carrier a"
  by (cases a) (simp_all add: isinstance_str_def)

lemma wrap_nonstr_str: "isinstance_str a \<Longrightarrow> wrap_nonstr ident a s = (a, s)"
  by (simp add: wrap_nonstr_def)

lemma wrap_nonstr_other:
  "\<not> isinstance_str a \<Longrightarrow>
   wrap_nonstr ident a s
     = (PCarrier (next_obj s) (object2name ident (next_obj s) a None) a,
        s\<lparr>next_obj := Suc (next_obj s)\<rparr>)"
  by (simp add: wrap_nonstr_def ObjectAsStr_def not_str_not_carrier)

lemma wrap_nonstr_props:
  assumes "wrap_nonstr ident a s = (a2, s2)"
  shows "trace s2 = trace s" "world s2 = world s" "isinstance_str a2"
    "isinstance_str a \<Longrightarrow> a2 = a \<and> s2 = s"
proof -
  show "trace s2 = trace s" "world s2 = world s" "isinstance_str a2"
    using assms
    by (cases "isinstance_str a"; auto simp: wrap_nonstr_str wrap_nonstr_other isinstance_str_def)+
  show "isinstance_str a \<Longrightarrow> a2 = a \<and> s2 = s"
    using assms by (simp add: wrap_nonstr_str)
qed

lemma dispatches_append: "dispatches (xs @ ys) = dispatches xs @ dispatches ys"
  by (simp add: dispatches_def map_filter_def)

lemma dispatches_simps:
  "dispatches [] = []"
  "dispatches [Dispatched p a] = [a]"
  "dispatches [Printed items] = []"
  by (simp_all add: dispatches_def map_filter_def)

lemma calls_post_refl: "calls_post [] s ok s"
  by (simp add: calls_post_def dispatches_simps)

lemma calls_post_fail: "calls_post A s ok s' \<Longrightarrow> calls_post (A @ B) s False s'"
proof -
  assume "calls_post A s ok s'"
  then obtain new where n: "trace s' = trace s @ new"
    "list_all2 (list_all2 passed) (take (length (dispatches new)) A) (dispatches new)"
    by (auto simp: calls_post_def)
  from n(2) have "length (dispatches new) \<le> length A"
    by (auto dest: list_all2_lengthD)
  with n show ?thesis unfolding calls_post_def by auto
qed

lemma calls_post_weaken: "calls_post A s ok s' \<Longrightarrow> calls_post A s False s'"
  using calls_post_fail[of A s ok s' "[]"] by simp

lemma calls_post_trans:
  assumes "calls_post A s True s1" and "calls_post B s1 ok s2"
  shows "calls_post (A @ B) s ok s2"
proof -
  from assms(1) obtain n1 where n1: "trace s1 = trace s @ n1"
    "list_all2 (list_all2 passed) (take (length (dispatches n1)) A) (dispatches n1)"
    "length (dispatches n1) = length A"
    by (auto simp: calls_post_def)
  from assms(2) obtain n2 where n2: "trace s2 = trace s1 @ n2"
    "list_all2 (list_all2 passed) (take (length (dispatches n2)) B) (dispatches n2)"
    "ok \<longrightarrow> length (dispatches n2) = length B"
    by (auto simp: calls_post_def)
  have "trace s2 = trace s @ (n1 @ n2)" using n1 n2 by simp
  moreover have "list_all2 (list_all2 passed)
      (take (length (dispatches (n1 @ n2))) (A @ B)) (dispatches (n1 @ n2))"
    using n1 n2 by (auto simp: dispatches_append intro: list_all2_appendI)
  moreover have "ok \<longrightarrow> length (dispatches (n1 @ n2)) = length (A @ B)"
    using n1 n2 by (simp add: dispatches_append)
  ultimately show ?thesis unfolding calls_post_def by blast
qed

lemma calls_post_same_trace:
  "calls_post A s ok s1 \<Longrightarrow> trace s2 = trace s1 \<Longrightarrow> calls_post A s ok s2"
  by (simp add: calls_post_def)

lemma passed_str: "list_all2 passed xs ys \<Longrightarrow> list_all isinstance_str ys"
  by (induction rule: list_all2_induct) (auto simp: passed_def split: if_splits)

lemma passed_all_str:
  "list_all2 (list_all2 passed) xss yss \<Longrightarrow> list_all (list_all isinstance_str) yss"
  by (induction rule: list_all2_induct) (auto intro: passed_str)

lemma resolve_one_calls:
  assumes IH: "\<And>xs s r s'. arg = PList xs \<or> arg = PTuple xs \<Longrightarrow>
      execute_command ident d p xs verbose False s = (r, s') \<Longrightarrow>
      calls_post (invocations xs) s (\<not> isl r) s'"
    and r1: "resolve_one ident d p arg verbose False s = (r1, s1)"
  shows "calls_post (invocations_val arg) s (\<not> isl r1) s1"
    and "isinstance_str arg \<Longrightarrow> r1 = Inr arg"
proof -
  show "calls_post (invocations_val arg) s (\<not> isl r1) s1"
  proof (cases arg)
    case (PList xs)
    with r1 have "execute_command ident d p xs verbose False s = (r1, s1)"
      by (simp add: resolve_one_def)
    from IH[OF _ this] PList show ?thesis by (simp add: invocations_def)
  next
    case (PTuple xs)
    with r1 have "execute_command ident d p xs verbose False s = (r1, s1)"
      by (simp add: resolve_one_def)
    from IH[OF _ this] PTuple show ?thesis by (simp add: invocations_def)
  qed (use r1 in \<open>auto simp: resolve_one_def calls_post_refl\<close>)
  show "isinstance_str arg \<Longrightarrow> r1 = Inr arg"
    using r1 by (cases arg) (auto simp: resolve_one_def isinstance_str_def)
qed

lemma resolve_args_calls:
  assumes IH: "\<And>x xs s r s'. x \<in> set args \<Longrightarrow> x = PList xs \<or> x = PTuple xs \<Longrightarrow>
      execute_command ident d p xs verbose False s = (r, s') \<Longrightarrow>
      calls_post (invocations xs) s (\<not> isl r) s'"
    and res: "resolve_args ident d p args verbose False s = (r, s')"
  shows "calls_post (concat (map invocations_val args)) s (\<not> isl r) s'
         \<and> (\<forall>args'. r = Inr args' \<longrightarrow> list_all2 passed args args')"
  using assms
proof (induction args arbitrary: s r s')
  case Nil
  then show ?case by (auto simp: calls_post_refl)
next
  case (Cons arg rest)
  let ?invs = "concat (map invocations_val (arg # rest))"
  obtain r1 s1 where r1: "resolve_one ident d p arg verbose False s = (r1, s1)"
    by (cases "resolve_one ident d p arg verbose False s")
  have ih1: "\<And>xs s r s'. arg = PList xs \<or> arg = PTuple xs \<Longrightarrow>
      execute_command ident d p xs verbose False s = (r, s') \<Longrightarrow>
      calls_post (invocations xs) s (\<not> isl r) s'"
    by (rule Cons.prems(1)[of arg]) simp_all
  have one: "calls_post (invocations_val arg) s (\<not> isl r1) s1"
    by (rule resolve_one_calls(1)[OF ih1 r1])
  have keep: "isinstance_str arg \<Longrightarrow> r1 = Inr arg"
    by (rule resolve_one_calls(2)[OF ih1 r1])
  show ?case
  proof (cases r1)
    case (Inl e)
    with Cons.prems(2) r1 have "r = Inl e" "s' = s1"
      by (simp_all add: resolve_args_Cons)
    with one show ?thesis by (auto intro: calls_post_fail)
  next
    case (Inr arg1)
    obtain arg2 s2 where w: "wrap_nonstr ident arg1 s1 = (arg2, s2)"
      by (cases "wrap_nonstr ident arg1 s1")
    obtain r3 s3 where r3: "resolve_args ident d p rest verbose False s2 = (r3, s3)"
      by (cases "resolve_args ident d p rest verbose False s2")
    have ih: "calls_post (concat (map invocations_val rest)) s2 (\<not> isl r3) s3
         \<and> (\<forall>args'. r3 = Inr args' \<longrightarrow> list_all2 passed rest args')"
    proof (rule Cons.IH[OF _ r3])
      fix x xs s r s'
      assume "x \<in> set rest" "x = PList xs \<or> x = PTuple xs"
        "execute_command ident d p xs verbose False s = (r, s')"
      then show "calls_post (invocations xs) s (\<not> isl r) s'"
        using Cons.prems(1)[of x xs s r s'] by simp
    qed
    from one Inr have one': "calls_post (invocations_val arg) s True s2"
      using wrap_nonstr_props(1)[OF w] by (auto intro: calls_post_same_trace)
    have all: "calls_post ?invs s (\<not> isl r3) s3"
      using calls_post_trans[OF one'] ih by simp
    have p: "passed arg arg2"
    proof (cases "isinstance_str arg")
      case True
      with keep Inr have "arg1 = arg" by simp
      with True wrap_nonstr_props(4)[OF w] show ?thesis by (simp add: passed_def)
    next
      case False
      with wrap_nonstr_props(3)[OF w] show ?thesis by (simp add: passed_def)
    qed
    show ?thesis
    proof (cases r3)
      case (Inl e)
      with Cons.prems(2) r1 Inr w r3 have "r = Inl e" "s' = s3"
        by (simp_all add: resolve_args_Cons)
      with all Inl show ?thesis by simp
    next
      case rest': (Inr rest')
      with Cons.prems(2) r1 Inr w r3 have "r = Inr (arg2 # rest')" "s' = s3"
        by (simp_all add: resolve_args_Cons)
      with all rest' ih p show ?thesis by simp
    qed
  qed
qed

lemma execute_command_calls_step:
  assumes res: "\<And>s r s'. resolve_args ident d p args verbose False s = (r, s') \<Longrightarrow>
      calls_post (concat (map invocations_val args)) s (\<not> isl r) s'
      \<and> (\<forall>args'. r = Inr args' \<longrightarrow> list_all2 passed args args')"
    and ex: "execute_command ident d p args verbose False s = (r, s')"
  shows "calls_post (invocations args) s (\<not> isl r) s'"
proof -
  obtain r1 s1 where r1: "resolve_args ident d p args verbose False s = (r1, s1)"
    by (cases "resolve_args ident d p args verbose False s")
  from res[OF r1] have c1: "calls_post (concat (map invocations_val args)) s (\<not> isl r1) s1"
    and p1: "\<And>args'. r1 = Inr args' \<Longrightarrow> list_all2 passed args args'"
    by auto
  show ?thesis
  proof (cases r1)
    case (Inl e)
    with ex r1 have "r = Inl e" "s' = s1" by (simp_all add: execute_command.simps)
    with c1 show ?thesis by (auto simp: invocations_def intro: calls_post_fail)
  next
    case (Inr args')
    obtain r2 w2 where d: "d p args' (world s1) = (r2, w2)"
      by (cases "d p args' (world s1)")
    define s2 where "s2 = s1\<lparr>world := w2, trace := trace s1 @ [Dispatched p args']\<rparr>"
    have e: "extern (Dispatched p args') (d p args') s1 = (r2, s2)"
      by (simp add: extern_def d s2_def)
    from p1[OF Inr] have pa: "list_all2 passed args args'" .
    have c2: "calls_post [args] s1 True s2"
      unfolding calls_post_def
      using pa
      by (intro exI[of _ "[Dispatched p args']"]) (simp add: s2_def dispatches_simps)
    from c1 Inr have "calls_post (concat (map invocations_val args)) s True s1" by simp
    from calls_post_trans[OF this c2]
    have c: "calls_post (invocations args) s True s2" by (simp add: invocations_def)
    show ?thesis
    proof (cases r2)
      case (Inl e2)
      with ex r1 Inr e have "r = Inl e2" "s' = s2" by (simp_all add: execute_command.simps)
      with c show ?thesis by (auto intro: calls_post_weaken)
    next
      case (Inr result)
      with ex r1 \<open>r1 = Inr args'\<close> e have r: "r = Inr result"
        and s': "s' = (if verbose then print (PStr p # args' @
                   [PStr '' -> '', PStr (object2name ident (next_obj s2) result None)]) s2
                 else s2)"
        by (simp_all add: execute_command.simps)
      have "calls_post [] s2 True s'"
        unfolding calls_post_def
        by (cases verbose) (auto simp: s' print_def dispatches_simps dispatches_def map_filter_def)
      from calls_post_trans[OF c this] r show ?thesis by simp
    qed
  qed
qed

lemma execute_command_calls_val:
  "(x = PList xs \<or> x = PTuple xs) \<Longrightarrow>
   execute_command ident d p xs verbose False s = (r, s') \<Longrightarrow>
   calls_post (invocations xs) s (\<not> isl r) s'"
proof (induction x arbitrary: xs s r s')
  case (PList ys)
  then have xs: "xs = ys" by simp
  have "\<And>s r s'. resolve_args ident d p ys verbose False s = (r, s') \<Longrightarrow>
      calls_post (concat (map invocations_val ys)) s (\<not> isl r) s'
      \<and> (\<forall>args'. r = Inr args' \<longrightarrow> list_all2 passed ys args')"
    by (rule resolve_args_calls[where args = ys]) (use PList.IH in blast)+
  from execute_command_calls_step[OF this] PList.prems(2) xs show ?case by simp
next
  case (PTuple ys)
  then have xs: "xs = ys" by simp
  have "\<And>s r s'. resolve_args ident d p ys verbose False s = (r, s') \<Longrightarrow>
      calls_post (concat (map invocations_val ys)) s (\<not> isl r) s'
      \<and> (\<forall>args'. r = Inr args' \<longrightarrow> list_all2 passed ys args')"
    by (rule resolve_args_calls[where args = ys]) (use PTuple.IH in blast)+
  from execute_command_calls_step[OF this] PTuple.prems(2) xs show ?case by simp
qed simp_all

lemma execute_command_calls:
  "execute_command ident d p args verbose False s = (r, s') \<Longrightarrow>
   calls_post (invocations args) s (\<not> isl r) s'"
  by (rule execute_command_calls_val[of "PList args"]) simp_all

lemma resolve_args_passed:
  "resolve_args ident d p args verbose False s = (Inr args', s') \<Longrightarrow>
   list_all2 passed args args'"
  using resolve_args_calls[where args = args and r = "Inr args'"] execute_command_calls
  by blast

lemma echoes_iff:
  "echoes ident progname orig line \<longleftrightarrow>
     (\<exists>k args'. list_all2 (dry_echo ident) orig args' \<and> line = echo ident progname k args')"
proof
  assume "echoes ident progname orig line"
  then show "\<exists>k args'. list_all2 (dry_echo ident) orig args'
      \<and> line = echo ident progname k args'"
    unfolding echoes_def by blast
next
  assume "\<exists>k args'. list_all2 (dry_echo ident) orig args' \<and> line = echo ident progname k args'"
  then obtain k args' where a: "list_all2 (dry_echo ident) orig args'"
    "line = echo ident progname k args'" by blast
  have "butlast (butlast (tl (echo ident progname k args'))) = args'"
    by (simp add: echo_def butlast_append)
  with a show "echoes ident progname orig line"
    unfolding echoes_def by auto
qed

lemma dry_post_refl: "dry_post ident p [] s s []"
  by (simp add: dry_post_def)

lemma dry_post_trans:
  "dry_post ident p A s s1 l1 \<Longrightarrow> dry_post ident p B s1 s2 l2 \<Longrightarrow>
   dry_post ident p (A @ B) s s2 (l1 @ l2)"
  unfolding dry_post_def
  by (cases s, cases s1, cases s2) (auto intro: list_all2_appendI)

lemma dry_post_next_obj:
  "dry_post ident p A s s1 l \<Longrightarrow> dry_post ident p A s (s1\<lparr>next_obj := k\<rparr>) l"
  unfolding dry_post_def by (cases s, cases s1) auto

lemma resolve_one_dry:
  assumes IH: "\<And>xs s r s'. arg = PList xs \<or> arg = PTuple xs \<Longrightarrow>
      execute_command ident d p xs verbose True s = (r, s') \<Longrightarrow>
      \<exists>lines ys. dry_post ident p (invocations xs) s s' lines \<and> r = Inr (PList ys)
        \<and> list_all2 (dry_echo ident) xs ys \<and> last lines = echo ident p (next_obj s') ys"
    and r1: "resolve_one ident d p arg verbose True s = (r1, s1)"
    and w: "wrap_nonstr ident (case r1 of Inr a \<Rightarrow> a | Inl e \<Rightarrow> PNone) s1 = (arg2, s2)"
  shows "\<exists>lines arg1. dry_post ident p (invocations_val arg) s s2 lines \<and> r1 = Inr arg1
           \<and> dry_echo ident arg arg2"
proof (cases arg)
  case (PList xs)
  with r1 have "execute_command ident d p xs verbose True s = (r1, s1)"
    by (simp add: resolve_one_def)
  from IH[OF _ this] PList obtain lines ys where
    l: "dry_post ident p (invocations xs) s s1 lines" "r1 = Inr (PList ys)"
       "list_all2 (dry_echo ident) xs ys"
    by auto
  from w l(2) have "arg2 = PCarrier (next_obj s1)
      (object2name ident (next_obj s1) (PList ys) None) (PList ys)"
    and "s2 = s1\<lparr>next_obj := Suc (next_obj s1)\<rparr>"
    by (simp_all add: wrap_nonstr_other isinstance_str_def)
  with l PList show ?thesis
    by (auto simp: invocations_def intro: dry_post_next_obj)
next
  case (PTuple xs)
  with r1 have "execute_command ident d p xs verbose True s = (r1, s1)"
    by (simp add: resolve_one_def)
  from IH[OF _ this] PTuple obtain lines ys where
    l: "dry_post ident p (invocations xs) s s1 lines" "r1 = Inr (PList ys)"
       "list_all2 (dry_echo ident) xs ys"
    by auto
  from w l(2) have "arg2 = PCarrier (next_obj s1)
      (object2name ident (next_obj s1) (PList ys) None) (PList ys)"
    and "s2 = s1\<lparr>next_obj := Suc (next_obj s1)\<rparr>"
    by (simp_all add: wrap_nonstr_other isinstance_str_def)
  with l PTuple show ?thesis
    by (auto simp: invocations_def intro: dry_post_next_obj)
next
  case PNone
  with r1 have "r1 = Inr PNone" "s1 = s" by (simp_all add: resolve_one_def)
  with w PNone show ?thesis
    by (auto simp: wrap_nonstr_other isinstance_str_def intro!: exI[of _ "[]"] dry_post_next_obj dry_post_refl)
next
  case (PStr x)
  with r1 have "r1 = Inr (PStr x)" "s1 = s" by (simp_all add: resolve_one_def)
  with w PStr show ?thesis
    by (auto simp: wrap_nonstr_str isinstance_str_def intro!: exI[of _ "[]"] dry_post_refl)
next
  case (PObj m t i)
  with r1 have "r1 = Inr (PObj m t i)" "s1 = s" by (simp_all add: resolve_one_def)
  with w PObj show ?thesis
    by (auto simp: wrap_nonstr_other isinstance_str_def intro!: exI[of _ "[]"] dry_post_next_obj dry_post_refl)
next
  case (PCarrier k n obj)
  with r1 have "r1 = Inr (PCarrier k n obj)" "s1 = s" by (simp_all add: resolve_one_def)
  with w PCarrier show ?thesis
    by (auto simp: wrap_nonstr_str isinstance_str_def intro!: exI[of _ "[]"] dry_post_refl)
qed

lemma resolve_args_dry:
  assumes IH: "\<And>x xs s r s'. x \<in> set args \<Longrightarrow> x = PList xs \<or> x = PTuple xs \<Longrightarrow>
      execute_command ident d p xs verbose True s = (r, s') \<Longrightarrow>
      \<exists>lines ys. dry_post ident p (invocations xs) s s' lines \<and> r = Inr (PList ys)
        \<and> list_all2 (dry_echo ident) xs ys \<and> last lines = echo ident p (next_obj s') ys"
    and res: "resolve_args ident d p args verbose True s = (r, s')"
  shows "\<exists>lines args'. dry_post ident p (concat (map invocations_val args)) s s' lines
           \<and> r = Inr args' \<and> list_all2 (dry_echo ident) args args'"
  using assms
proof (induction args arbitrary: s r s')
  case Nil
  then show ?case by (auto intro: dry_post_refl)
next
  case (Cons arg rest)
  obtain r1 s1 where r1: "resolve_one ident d p arg verbose True s = (r1, s1)"
    by (cases "resolve_one ident d p arg verbose True s")
  obtain arg2 s2 where
    w: "wrap_nonstr ident (case r1 of Inr a \<Rightarrow> a | Inl e \<Rightarrow> PNone) s1 = (arg2, s2)"
    by (cases "wrap_nonstr ident (case r1 of Inr a \<Rightarrow> a | Inl e \<Rightarrow> PNone) s1")
  have ih1: "\<And>xs s r s'. arg = PList xs \<or> arg = PTuple xs \<Longrightarrow>
      execute_command ident d p xs verbose True s = (r, s') \<Longrightarrow>
      \<exists>lines ys. dry_post ident p (invocations xs) s s' lines \<and> r = Inr (PList ys)
        \<and> list_all2 (dry_echo ident) xs ys \<and> last lines = echo ident p (next_obj s') ys"
    by (rule Cons.prems(1)[of arg]) simp_all
  from resolve_one_dry[OF ih1 r1 w] obtain l1 arg1 where
    one: "dry_post ident p (invocations_val arg) s s2 l1" "r1 = Inr arg1"
      "dry_echo ident arg arg2"
    by blast
  from w one(2) have w': "wrap_nonstr ident arg1 s1 = (arg2, s2)" by simp
  obtain r3 s3 where r3: "resolve_args ident d p rest verbose True s2 = (r3, s3)"
    by (cases "resolve_args ident d p rest verbose True s2")
  have "\<exists>lines args'. dry_post ident p (concat (map invocations_val rest)) s2 s3 lines
           \<and> r3 = Inr args' \<and> list_all2 (dry_echo ident) rest args'"
  proof (rule Cons.IH[OF _ r3])
    fix x xs s r s'
    assume "x \<in> set rest" "x = PList xs \<or> x = PTuple xs"
      "execute_command ident d p xs verbose True s = (r, s')"
    then show "\<exists>lines ys. dry_post ident p (invocations xs) s s' lines \<and> r = Inr (PList ys)
        \<and> list_all2 (dry_echo ident) xs ys \<and> last lines = echo ident p (next_obj s') ys"
      using Cons.prems(1)[of x xs s r s'] by simp
  qed
  then obtain l3 rest' where
    ih: "dry_post ident p (concat (map invocations_val rest)) s2 s3 l3" "r3 = Inr rest'"
      "list_all2 (dry_echo ident) rest rest'"
    by blast
  from Cons.prems(2) r1 one(2) w' r3 ih(2) have "r = Inr (arg2 # rest')" "s' = s3"
    by (simp_all add: resolve_args_Cons)
  with dry_post_trans[OF one(1) ih(1)] one(3) ih(3) show ?case by auto
qed

lemma execute_command_dry_step:
  assumes res: "\<And>s r s'. resolve_args ident d p args verbose True s = (r, s') \<Longrightarrow>
      \<exists>lines args'. dry_post ident p (concat (map invocations_val args)) s s' lines
           \<and> r = Inr args' \<and> list_all2 (dry_echo ident) args args'"
    and ex: "execute_command ident d p args verbose True s = (r, s')"
  shows "\<exists>lines args'. dry_post ident p (invocations args) s s' lines \<and> r = Inr (PList args')
        \<and> list_all2 (dry_echo ident) args args' \<and> last lines = echo ident p (next_obj s') args'"
proof -
  obtain r1 s1 where r1: "resolve_args ident d p args verbose True s = (r1, s1)"
    by (cases "resolve_args ident d p args verbose True s")
  from res[OF r1] obtain l1 args' where
    a: "dry_post ident p (concat (map invocations_val args)) s s1 l1" "r1 = Inr args'"
       "list_all2 (dry_echo ident) args args'"
    by blast
  from ex r1 a(2) have r: "r = Inr (PList args')"
    and s': "s' = print (echo ident p (next_obj s1) args') s1"
    by (simp_all add: execute_command.simps echo_def)
  have n: "next_obj s' = next_obj s1" by (simp add: s' print_def)
  have "dry_post ident p [args] s1 s' [echo ident p (next_obj s1) args']"
    unfolding dry_post_def s' print_def echoes_iff using a(3) by (cases s1) auto
  from dry_post_trans[OF a(1) this] r a(3) n show ?thesis
    by (intro exI[of _ "l1 @ [echo ident p (next_obj s1) args']"] exI[of _ args'])
       (simp add: invocations_def)
qed

lemma execute_command_dry_val:
  "(x = PList xs \<or> x = PTuple xs) \<Longrightarrow>
   execute_command ident d p xs verbose True s = (r, s') \<Longrightarrow>
   \<exists>lines args'. dry_post ident p (invocations xs) s s' lines \<and> r = Inr (PList args')
        \<and> list_all2 (dry_echo ident) xs args' \<and> last lines = echo ident p (next_obj s') args'"
proof (induction x arbitrary: xs s r s')
  case (PList ys)
  then have xs: "xs = ys" by simp
  have "\<And>s r s'. resolve_args ident d p ys verbose True s = (r, s') \<Longrightarrow>
      \<exists>lines args'. dry_post ident p (concat (map invocations_val ys)) s s' lines
           \<and> r = Inr args' \<and> list_all2 (dry_echo ident) ys args'"
    by (rule resolve_args_dry[where args = ys]) (use PList.IH in blast)+
  from execute_command_dry_step[OF this] PList.prems(2) xs show ?case by simp
next
  case (PTuple ys)
  then have xs: "xs = ys" by simp
  have "\<And>s r s'. resolve_args ident d p ys verbose True s = (r, s') \<Longrightarrow>
      \<exists>lines args'. dry_post ident p (concat (map invocations_val ys)) s s' lines
           \<and> r = Inr args' \<and> list_all2 (dry_echo ident) ys args'"
    by (rule resolve_args_dry[where args = ys]) (use PTuple.IH in blast)+
  from execute_command_dry_step[OF this] PTuple.prems(2) xs show ?case by simp
qed simp_all

lemma execute_command_dry:
  "execute_command ident d p args verbose True s = (r, s') \<Longrightarrow>
   \<exists>lines args'. dry_post ident p (invocations args) s s' lines \<and> r = Inr (PList args')
        \<and> list_all2 (dry_echo ident) args args' \<and> last lines = echo ident p (next_obj s') args'"
  by (rule execute_command_dry_val[of "PList args"]) simp_all

lemmas exec_eval = execute_command.simps resolve_args_Cons resolve_one_def wrap_nonstr_def
  ObjectAsStr_def object2name_def show_int_0 extern_def print_def isinstance_str_def

lemma unbracket_example:
  "unbracket [''['', ''cmd_inner'', ''a'', ''b'', '']'', ''c'']
   = Inr [PList [PStr ''cmd_inner'', PStr ''a'', PStr ''b''], PStr ''c'']"
  by (simp add: unbracket_def unbracket_loop_scan)

lemma main_example:
  assumes i: "d p [PStr ''cmd_inner'', PStr ''a'', PStr ''b''] (world t) = (Inr r1, w1)"
    and o: "d p [PStr ''cmd_outer'',
                 if isinstance_str r1 then r1
                 else PCarrier (next_obj t) (object2name ident (next_obj t) r1 None) r1,
                 PStr ''c''] w1 = (Inr r2, w2)"
  shows "main ident d p ''cmd_outer'' [''['', ''cmd_inner'', ''a'', ''b'', '']'', ''c'']
            False False t
         = (Inr r2,
            t\<lparr>world := w2,
              trace := trace t @
                [Dispatched p [PStr ''cmd_inner'', PStr ''a'', PStr ''b''],
                 Dispatched p [PStr ''cmd_outer'',
                   if isinstance_str r1 then r1
                   else PCarrier (next_obj t) (object2name ident (next_obj t) r1 None) r1,
                   PStr ''c'']],
              next_obj := (if isinstance_str r1 then next_obj t else Suc (next_obj t))\<rparr>)"
proof -
  define c1 where "c1 = (if isinstance_str r1 then r1
                 else PCarrier (next_obj t) (object2name ident (next_obj t) r1 None) r1)"
  define t1 where "t1 = t\<lparr>world := w1,
          trace := trace t @ [Dispatched p [PStr ''cmd_inner'', PStr ''a'', PStr ''b'']]\<rparr>"
  define t2 where "t2 = t1\<lparr>next_obj := (if isinstance_str r1 then next_obj t
                                        else Suc (next_obj t))\<rparr>"
  have res_inner: "resolve_args ident d p [PStr ''cmd_inner'', PStr ''a'', PStr ''b''] False False t
     = (Inr [PStr ''cmd_inner'', PStr ''a'', PStr ''b''], t)"
    by (simp add: resolve_args_Cons resolve_one_def wrap_nonstr_def isinstance_str_def)
  have inner: "execute_command ident d p [PStr ''cmd_inner'', PStr ''a'', PStr ''b''] False False t
     = (Inr r1, t1)"
    by (subst execute_command.simps) (simp add: res_inner extern_def i t1_def)
  have one: "resolve_one ident d p (PList [PStr ''cmd_inner'', PStr ''a'', PStr ''b''])
               False False t = (Inr r1, t1)"
    by (simp add: resolve_one_def inner)
  have w: "wrap_nonstr ident r1 t1 = (c1, t2)"
    by (cases "isinstance_str r1")
       (simp_all add: wrap_nonstr_str wrap_nonstr_other c1_def t2_def t1_def)
  have res_c: "resolve_args ident d p [PStr ''c''] False False t2 = (Inr [PStr ''c''], t2)"
    by (simp add: resolve_args_Cons resolve_one_def wrap_nonstr_def isinstance_str_def)
  have res_tail: "resolve_args ident d p
      [PList [PStr ''cmd_inner'', PStr ''a'', PStr ''b''], PStr ''c''] False False t
     = (Inr [c1, PStr ''c''], t2)"
    by (subst resolve_args_Cons) (simp add: one w res_c)
  have res_outer: "resolve_args ident d p
      [PStr ''cmd_outer'', PList [PStr ''cmd_inner'', PStr ''a'', PStr ''b''], PStr ''c'']
      False False t
     = (Inr [PStr ''cmd_outer'', c1, PStr ''c''], t2)"
    by (subst resolve_args_Cons)
       (simp add: resolve_one_def wrap_nonstr_def isinstance_str_def res_tail)
  have o': "d p [PStr ''cmd_outer'', c1, PStr ''c''] (world t2) = (Inr r2, w2)"
    using o by (simp add: c1_def t2_def t1_def)
  have outer: "execute_command ident d p
      [PStr ''cmd_outer'', PList [PStr ''cmd_inner'', PStr ''a'', PStr ''b''], PStr ''c'']
      False False t
     = (Inr r2, t2\<lparr>world := w2,
          trace := trace t2 @ [Dispatched p [PStr ''cmd_outer'', c1, PStr ''c'']]\<rparr>)"
    by (subst execute_command.simps) (simp add: res_outer extern_def o')
  show ?thesis
    unfolding main_def unbracket_example
    by (simp add: outer) (simp add: t2_def t1_def c1_def)
qed

text \<open>
  Claim C4, as amended. The dispatcher calls that \<open>execute_command\<close> (not a dry run)
  adds to the trace are those of the invocations of the nested argument list, innermost
  first and siblings left to right, one call each, the enclosing call last: an initial
  part of that order in any run, and all of it when the run returns a result (\<open>r\<close> is
  not an error). Each call is given the invocation's arguments with strings unchanged and
  everything else as a string. For the command line \<^verbatim>\<open>cmd_outer [ cmd_inner a b ] c\<close>:
  \<^verbatim>\<open>cmd_inner a b\<close> is dispatched once, before \<^verbatim>\<open>cmd_outer\<close>, and \<^verbatim>\<open>cmd_outer\<close>
  receives, followed by \<^verbatim>\<open>c\<close>, the inner result itself when that is a string and the
  carrier of the inner result otherwise.
\<close>

theorem execute_command_order:
  "(execute_command ident d p args verbose False s = (r, s') \<longrightarrow>
      (\<exists>new. trace s' = trace s @ new
         \<and> list_all2 (list_all2 passed)
              (take (length (dispatches new)) (invocations args)) (dispatches new)
         \<and> (\<not> isl r \<longrightarrow> length (dispatches new) = length (invocations args))))
   \<and> (d' p' [PStr ''cmd_inner'', PStr ''a'', PStr ''b''] (world t) = (Inr r1, w1)
       \<and> d' p' [PStr ''cmd_outer'',
                 if isinstance_str r1 then r1
                 else PCarrier (next_obj t) (object2name ident' (next_obj t) r1 None) r1,
                 PStr ''c''] w1 = (Inr r2, w2)
      \<longrightarrow> fst (main ident' d' p' ''cmd_outer'' [''['', ''cmd_inner'', ''a'', ''b'', '']'', ''c'']
                 False False t) = Inr r2
        \<and> trace (snd (main ident' d' p' ''cmd_outer''
                 [''['', ''cmd_inner'', ''a'', ''b'', '']'', ''c''] False False t))
          = trace t @
              [Dispatched p' [PStr ''cmd_inner'', PStr ''a'', PStr ''b''],
               Dispatched p' [PStr ''cmd_outer'',
                 if isinstance_str r1 then r1
                 else PCarrier (next_obj t) (object2name ident' (next_obj t) r1 None) r1,
                 PStr ''c'']])"
proof (intro conjI impI)
  assume "execute_command ident d p args verbose False s = (r, s')"
  from execute_command_calls[OF this]
  show "\<exists>new. trace s' = trace s @ new
         \<and> list_all2 (list_all2 passed)
              (take (length (dispatches new)) (invocations args)) (dispatches new)
         \<and> (\<not> isl r \<longrightarrow> length (dispatches new) = length (invocations args))"
    by (simp add: calls_post_def)
next
  assume a: "d' p' [PStr ''cmd_inner'', PStr ''a'', PStr ''b''] (world t) = (Inr r1, w1)
       \<and> d' p' [PStr ''cmd_outer'',
                 if isinstance_str r1 then r1
                 else PCarrier (next_obj t) (object2name ident' (next_obj t) r1 None) r1,
                 PStr ''c''] w1 = (Inr r2, w2)"
  then have m: "main ident' d' p' ''cmd_outer'' [''['', ''cmd_inner'', ''a'', ''b'', '']'', ''c'']
            False False t
         = (Inr r2,
            t\<lparr>world := w2,
              trace := trace t @
                [Dispatched p' [PStr ''cmd_inner'', PStr ''a'', PStr ''b''],
                 Dispatched p' [PStr ''cmd_outer'',
                   if isinstance_str r1 then r1
                   else PCarrier (next_obj t) (object2name ident' (next_obj t) r1 None) r1,
                   PStr ''c'']],
              next_obj := (if isinstance_str r1 then next_obj t else Suc (next_obj t))\<rparr>)"
    using main_example[of d' p' t r1 w1 ident' r2 w2] by blast
  show "fst (main ident' d' p' ''cmd_outer'' [''['', ''cmd_inner'', ''a'', ''b'', '']'', ''c'']
                 False False t) = Inr r2"
    by (simp add: m)
  show "trace (snd (main ident' d' p' ''cmd_outer''
                 [''['', ''cmd_inner'', ''a'', ''b'', '']'', ''c''] False False t))
          = trace t @
              [Dispatched p' [PStr ''cmd_inner'', PStr ''a'', PStr ''b''],
               Dispatched p' [PStr ''cmd_outer'',
                 if isinstance_str r1 then r1
                 else PCarrier (next_obj t) (object2name ident' (next_obj t) r1 None) r1,
                 PStr ''c'']]"
    by (simp add: m)
qed

lemma exec_cube_example:
  "execute_command ident0 dispatcher0 ''improver''
     [PStr ''cmd_outer'', PList [PStr ''cmd_inner'', PStr ''a'', PStr ''b''], PStr ''c'']
     False False s0
   = (Inr cube0,
      s0\<lparr>trace :=
           [Dispatched ''improver'' [PStr ''cmd_inner'', PStr ''a'', PStr ''b''],
            Dispatched ''improver''
              [PStr ''cmd_outer'', PCarrier 0 ''<iris.cube.Cube@0>'' cube0, PStr ''c'']],
         next_obj := 1\<rparr>)"
  by (simp add: exec_eval ident0_def dispatcher0_def s0_def cube0_def)

theorem execute_command_order_witness:
  "execute_command ident0 dispatcher0 ''improver''
     [PStr ''cmd_outer'', PList [PStr ''cmd_inner'', PStr ''a'', PStr ''b''], PStr ''c'']
     False False s0
   = (Inr cube0,
      s0\<lparr>trace :=
           [Dispatched ''improver'' [PStr ''cmd_inner'', PStr ''a'', PStr ''b''],
            Dispatched ''improver''
              [PStr ''cmd_outer'', PCarrier 0 ''<iris.cube.Cube@0>'' cube0, PStr ''c'']],
         next_obj := 1\<rparr>)
   \<and> list_all2 (list_all2 passed)
        (invocations
           [PStr ''cmd_outer'', PList [PStr ''cmd_inner'', PStr ''a'', PStr ''b''], PStr ''c''])
        [[PStr ''cmd_inner'', PStr ''a'', PStr ''b''],
         [PStr ''cmd_outer'', PCarrier 0 ''<iris.cube.Cube@0>'' cube0, PStr ''c'']]
   \<and> dispatcher0 ''improver'' [PStr ''cmd_inner'', PStr ''a'', PStr ''b''] (world s0)
       = (Inr cube0, ())
   \<and> dispatcher0 ''improver''
        [PStr ''cmd_outer'', PCarrier 0 ''<iris.cube.Cube@0>'' cube0, PStr ''c''] ()
       = (Inr cube0, ())
   \<and> fst (main ident0 dispatcher0 ''improver'' ''cmd_outer''
            [''['', ''cmd_inner'', ''a'', ''b'', '']'', ''c''] False False s0) = Inr cube0
   \<and> trace (snd (main ident0 dispatcher0 ''improver'' ''cmd_outer''
            [''['', ''cmd_inner'', ''a'', ''b'', '']'', ''c''] False False s0))
       = [Dispatched ''improver'' [PStr ''cmd_inner'', PStr ''a'', PStr ''b''],
          Dispatched ''improver''
            [PStr ''cmd_outer'', PCarrier 0 ''<iris.cube.Cube@0>'' cube0, PStr ''c'']]"
proof -
  note e = exec_cube_example
  have n: "object2name ident0 0 cube0 None = ''<iris.cube.Cube@0>''"
    by (simp add: object2name_def ident0_def cube0_def show_int_0)
  have c: "\<not> isinstance_str cube0" by (simp add: isinstance_str_def cube0_def)
  have h1: "dispatcher0 ''improver'' [PStr ''cmd_inner'', PStr ''a'', PStr ''b''] (world s0)
       = (Inr cube0, ())"
    by (simp add: dispatcher0_def)
  have h2: "dispatcher0 ''improver''
        [PStr ''cmd_outer'', PCarrier 0 ''<iris.cube.Cube@0>'' cube0, PStr ''c''] ()
       = (Inr cube0, ())"
    by (simp add: dispatcher0_def)
  from execute_command_order[where ident = ident0 and d = dispatcher0 and p = "''improver''"
      and args = "[PStr ''cmd_outer'', PList [PStr ''cmd_inner'', PStr ''a'', PStr ''b''],
                   PStr ''c'']"
      and verbose = False and s = s0 and r = "Inr cube0"
      and s' = "s0\<lparr>trace :=
           [Dispatched ''improver'' [PStr ''cmd_inner'', PStr ''a'', PStr ''b''],
            Dispatched ''improver''
              [PStr ''cmd_outer'', PCarrier 0 ''<iris.cube.Cube@0>'' cube0, PStr ''c'']],
         next_obj := 1\<rparr>"
      and d' = dispatcher0 and p' = "''improver''" and t = s0 and ?r1.0 = cube0 and ?w1.0 = "()"
      and ident' = ident0 and ?r2.0 = cube0 and ?w2.0 = "()"]
    e h1 h2 n c
  show ?thesis
    by (simp add: s0_def dispatches_def map_filter_def invocations_def passed_def
        isinstance_str_def)
qed

text \<open>
  Claim C4 as stated fails when the inner command returns text: \<^verbatim>\<open>cmd_outer\<close> is given
  the text itself, not a carrier.
\<close>

theorem execute_command_order_counterexample:
  "main ident0 dispatcher_text ''improver'' ''cmd_outer''
     [''['', ''cmd_inner'', ''a'', ''b'', '']'', ''c''] False False s0
   = (Inr (PStr ''some text''),
      s0\<lparr>trace :=
           [Dispatched ''improver'' [PStr ''cmd_inner'', PStr ''a'', PStr ''b''],
            Dispatched ''improver'' [PStr ''cmd_outer'', PStr ''some text'', PStr ''c'']]\<rparr>)
   \<and> \<not> is_carrier (PStr ''some text'')"
  by (simp add: main_def unbracket_example exec_eval dispatcher_text_def s0_def)

lemma dry_echo_passed: "dry_echo ident orig a \<Longrightarrow> passed orig a"
  by (cases orig) (auto simp: passed_def isinstance_str_def split: pyval.splits)

lemma resolve_args_strings:
  assumes "resolve_args ident d p args verbose dry_run s = (Inr args', s1)"
  shows "list_all2 passed args args'"
proof (cases dry_run)
  case False
  with assms have "resolve_args ident d p args verbose False s = (Inr args', s1)" by simp
  then show ?thesis by (rule resolve_args_passed)
next
  case True
  with assms have a: "resolve_args ident d p args verbose True s = (Inr args', s1)" by simp
  have "\<exists>lines args''. dry_post ident p (concat (map invocations_val args)) s s1 lines
           \<and> (Inr args' :: error + pyval list) = Inr args''
           \<and> list_all2 (dry_echo ident) args args''"
  proof (rule resolve_args_dry[OF _ a])
    fix x xs s r s'
    assume "execute_command ident d p xs verbose True s = (r, s')"
    then show "\<exists>lines ys. dry_post ident p (invocations xs) s s' lines \<and> r = Inr (PList ys)
        \<and> list_all2 (dry_echo ident) xs ys \<and> last lines = echo ident p (next_obj s') ys"
      by (rule execute_command_dry)
  qed
  then have "list_all2 (dry_echo ident) args args'" by auto
  then show ?thesis
    by (rule list_all2_mono) (rule dry_echo_passed)
qed

text \<open>
  Claim C9. When the loop over the arguments ends, the list has the same length, every
  element of it is a string, and an element that was a string already (plain or carrier)
  is the same element: no carrier is wrapped again. That list is what the dispatcher is
  called with next, and every dispatcher call of a run, nested ones included and whatever
  the outcome, is given strings only.
\<close>

theorem execute_command_hands_strings:
  "(resolve_args ident d p args verbose dry_run s = (Inr args', s1) \<longrightarrow>
      list_all2 passed args args' \<and> list_all isinstance_str args'
      \<and> (\<not> dry_run \<longrightarrow>
           (\<exists>rest. trace (snd (execute_command ident d p args verbose dry_run s))
                    = trace s1 @ Dispatched p args' # rest)))
   \<and> (\<exists>new. trace (snd (execute_command ident2 d2 p2 args2 verbose2 False s2))
               = trace s2 @ new
          \<and> list_all (list_all isinstance_str) (dispatches new))"
proof (intro conjI impI)
  assume a: "resolve_args ident d p args verbose dry_run s = (Inr args', s1)"
  from resolve_args_strings[OF a] show p: "list_all2 passed args args'" .
  from passed_str[OF p] show "list_all isinstance_str args'" .
  assume "\<not> dry_run"
  obtain r2 w2 where d: "d p args' (world s1) = (r2, w2)"
    by (cases "d p args' (world s1)")
  show "\<exists>rest. trace (snd (execute_command ident d p args verbose dry_run s))
                    = trace s1 @ Dispatched p args' # rest"
    using a d \<open>\<not> dry_run\<close>
    by (cases r2; cases verbose)
       (simp_all add: execute_command.simps extern_def print_def)
next
  obtain r s' where e: "execute_command ident2 d2 p2 args2 verbose2 False s2 = (r, s')"
    by (cases "execute_command ident2 d2 p2 args2 verbose2 False s2")
  from execute_command_calls[OF e] obtain new where
    "trace s' = trace s2 @ new"
    "list_all2 (list_all2 passed)
       (take (length (dispatches new)) (invocations args2)) (dispatches new)"
    by (auto simp: calls_post_def)
  with passed_all_str[OF this(2)]
  show "\<exists>new. trace (snd (execute_command ident2 d2 p2 args2 verbose2 False s2))
               = trace s2 @ new
          \<and> list_all (list_all isinstance_str) (dispatches new)"
    by (auto simp: e)
qed

lemma resolve_example:
  "resolve_args ident0 dispatcher0 ''improver''
     [PStr ''cmd'', PCarrier 5 ''<iris.cube.Cube@0>'' cube0, cube0, PList [PStr ''inner'']]
     False False s0
   = (Inr [PStr ''cmd'', PCarrier 5 ''<iris.cube.Cube@0>'' cube0,
           PCarrier 0 ''<iris.cube.Cube@0>'' cube0,
           PCarrier 1 ''<iris.cube.Cube@0>'' cube0],
      s0\<lparr>trace := [Dispatched ''improver'' [PStr ''inner'']], next_obj := 2\<rparr>)"
  by (simp add: exec_eval ident0_def dispatcher0_def s0_def cube0_def)

theorem execute_command_hands_strings_witness:
  "resolve_args ident0 dispatcher0 ''improver''
     [PStr ''cmd'', PCarrier 5 ''<iris.cube.Cube@0>'' cube0, cube0, PList [PStr ''inner'']]
     False False s0
   = (Inr [PStr ''cmd'', PCarrier 5 ''<iris.cube.Cube@0>'' cube0,
           PCarrier 0 ''<iris.cube.Cube@0>'' cube0,
           PCarrier 1 ''<iris.cube.Cube@0>'' cube0],
      s0\<lparr>trace := [Dispatched ''improver'' [PStr ''inner'']], next_obj := 2\<rparr>)
   \<and> list_all isinstance_str
        [PStr ''cmd'', PCarrier 5 ''<iris.cube.Cube@0>'' cube0,
         PCarrier 0 ''<iris.cube.Cube@0>'' cube0, PCarrier 1 ''<iris.cube.Cube@0>'' cube0]
   \<and> (\<exists>rest. trace (snd (execute_command ident0 dispatcher0 ''improver''
          [PStr ''cmd'', PCarrier 5 ''<iris.cube.Cube@0>'' cube0, cube0, PList [PStr ''inner'']]
          False False s0))
        = [Dispatched ''improver'' [PStr ''inner''],
           Dispatched ''improver''
             [PStr ''cmd'', PCarrier 5 ''<iris.cube.Cube@0>'' cube0,
              PCarrier 0 ''<iris.cube.Cube@0>'' cube0,
              PCarrier 1 ''<iris.cube.Cube@0>'' cube0]] @ rest)"
proof -
  note e = resolve_example
  from execute_command_hands_strings[where ident = ident0 and d = dispatcher0
      and p = "''improver''" and verbose = False and dry_run = False and s = s0
      and args = "[PStr ''cmd'', PCarrier 5 ''<iris.cube.Cube@0>'' cube0, cube0,
                   PList [PStr ''inner'']]"
      and args' = "[PStr ''cmd'', PCarrier 5 ''<iris.cube.Cube@0>'' cube0,
           PCarrier 0 ''<iris.cube.Cube@0>'' cube0,
           PCarrier 1 ''<iris.cube.Cube@0>'' cube0]"
      and ?s1.0 = "s0\<lparr>trace := [Dispatched ''improver'' [PStr ''inner'']], next_obj := 2\<rparr>"
      and ?ident2.0 = ident0 and ?d2.0 = dispatcher0 and ?p2.0 = "''improver''"
      and ?args2.0 = "[]" and ?verbose2.0 = False and ?s2.0 = s0]
    e
  show ?thesis by simp
qed

text \<open>
  Claim C5, as amended. A dry run never calls the dispatcher, at any nesting level: it adds
  only printed lines to the trace, leaves the outside as it is, and returns its own resolved
  argument list. It prints one line for every invocation, innermost first, the line of the
  whole command last. In the returned list and in the lines a string stands as it is, and
  a nested list stands as a carrier around that list's own resolved arguments, whose text
  is the name of that \<^verbatim>\<open>builtins.list\<close> object: the number in it is the one the
  interpreter gives the object, so two nested lists with the same tokens may show
  different texts.
\<close>

theorem execute_command_dry_run:
  "execute_command ident d p args verbose True s = (r, s') \<Longrightarrow>
     dispatches (trace s') = dispatches (trace s) \<and> world s' = world s
     \<and> (\<exists>lines args'. trace s' = trace s @ map Printed lines
          \<and> r = Inr (PList args')
          \<and> list_all2 (dry_echo ident) args args'
          \<and> list_all2 (echoes ident p) (invocations args) lines
          \<and> last lines = echo ident p (next_obj s') args')"
proof -
  assume "execute_command ident d p args verbose True s = (r, s')"
  from execute_command_dry[OF this] obtain lines args' where
    a: "dry_post ident p (invocations args) s s' lines" "r = Inr (PList args')"
       "list_all2 (dry_echo ident) args args'" "last lines = echo ident p (next_obj s') args'"
    by blast
  from a(1) have s': "s' = s\<lparr>trace := trace s @ map Printed lines, next_obj := next_obj s'\<rparr>"
    and l: "list_all2 (echoes ident p) (invocations args) lines"
    by (simp_all add: dry_post_def)
  have t: "trace s' = trace s @ map Printed lines" by (subst s') simp
  have w: "world s' = world s" by (subst s') simp
  have "dispatches (map Printed lines) = []"
    by (induction lines) (simp_all add: dispatches_def map_filter_def)
  with t have "dispatches (trace s') = dispatches (trace s)"
    by (simp add: dispatches_append)
  with t w a l show ?thesis by blast
qed

lemma dry_example:
  "execute_command ident0 dispatcher0 ''improver''
     [PStr ''foo'', PList [PStr ''bar'', PStr ''a'']] False True s0
   = (Inr (PList [PStr ''foo'',
                  PCarrier 0 ''<builtins.list@0>'' (PList [PStr ''bar'', PStr ''a''])]),
      s0\<lparr>trace :=
           [Printed [PStr ''improver'', PStr ''bar'', PStr ''a'', PStr '' -> '',
                     PStr ''<builtins.list@0>''],
            Printed [PStr ''improver'', PStr ''foo'',
                     PCarrier 0 ''<builtins.list@0>'' (PList [PStr ''bar'', PStr ''a'']),
                     PStr '' -> '', PStr ''<builtins.list@0>'']],
         next_obj := 1\<rparr>)"
  by (simp add: exec_eval ident0_def s0_def)

lemma show_int_14x:
  "show_int 140 = ''140''" "show_int 141 = ''141''" "show_int 142 = ''142''"
  by (simp_all add: show_int_def show_nat.simps)

lemma dry_siblings_example:
  "execute_command ident1 dispatcher0 ''improver''
     [PStr ''foo'', PList [PStr ''bar''], PList [PStr ''bar'']] False True s0
   = (Inr (PList [PStr ''foo'',
                  PCarrier 0 ''<builtins.list@140>'' (PList [PStr ''bar'']),
                  PCarrier 1 ''<builtins.list@141>'' (PList [PStr ''bar''])]),
      s0\<lparr>trace :=
           [Printed [PStr ''improver'', PStr ''bar'', PStr '' -> '',
                     PStr ''<builtins.list@140>''],
            Printed [PStr ''improver'', PStr ''bar'', PStr '' -> '',
                     PStr ''<builtins.list@141>''],
            Printed [PStr ''improver'', PStr ''foo'',
                     PCarrier 0 ''<builtins.list@140>'' (PList [PStr ''bar'']),
                     PCarrier 1 ''<builtins.list@141>'' (PList [PStr ''bar'']),
                     PStr '' -> '', PStr ''<builtins.list@142>'']],
         next_obj := 2\<rparr>)"
  by (simp add: execute_command.simps resolve_args_Cons resolve_one_def wrap_nonstr_def
      ObjectAsStr_def object2name_def extern_def print_def isinstance_str_def
      ident1_def s0_def show_int_14x)

theorem execute_command_dry_run_witness:
  "execute_command ident1 dispatcher0 ''improver''
     [PStr ''foo'', PList [PStr ''bar''], PList [PStr ''bar'']] False True s0
   = (Inr (PList [PStr ''foo'',
                  PCarrier 0 ''<builtins.list@140>'' (PList [PStr ''bar'']),
                  PCarrier 1 ''<builtins.list@141>'' (PList [PStr ''bar''])]),
      s0\<lparr>trace :=
           [Printed [PStr ''improver'', PStr ''bar'', PStr '' -> '',
                     PStr ''<builtins.list@140>''],
            Printed [PStr ''improver'', PStr ''bar'', PStr '' -> '',
                     PStr ''<builtins.list@141>''],
            Printed [PStr ''improver'', PStr ''foo'',
                     PCarrier 0 ''<builtins.list@140>'' (PList [PStr ''bar'']),
                     PCarrier 1 ''<builtins.list@141>'' (PList [PStr ''bar'']),
                     PStr '' -> '', PStr ''<builtins.list@142>'']],
         next_obj := 2\<rparr>)
   \<and> dispatches
        [Printed [PStr ''improver'', PStr ''bar'', PStr '' -> '',
                  PStr ''<builtins.list@140>''],
         Printed [PStr ''improver'', PStr ''bar'', PStr '' -> '',
                  PStr ''<builtins.list@141>''],
         Printed [PStr ''improver'', PStr ''foo'',
                  PCarrier 0 ''<builtins.list@140>'' (PList [PStr ''bar'']),
                  PCarrier 1 ''<builtins.list@141>'' (PList [PStr ''bar'']),
                  PStr '' -> '', PStr ''<builtins.list@142>'']] = []
   \<and> list_all2 (dry_echo ident1)
        [PStr ''foo'', PList [PStr ''bar''], PList [PStr ''bar'']]
        [PStr ''foo'',
         PCarrier 0 ''<builtins.list@140>'' (PList [PStr ''bar'']),
         PCarrier 1 ''<builtins.list@141>'' (PList [PStr ''bar''])]"
proof -
  note e = dry_siblings_example
  from execute_command_dry_run[OF e] e show ?thesis
    by (simp add: s0_def dispatches_def map_filter_def object2name_def ident1_def
        show_int_14x)
qed

text \<open>
  Claim C5 as stated fails on \<^verbatim>\<open>foo [ bar a ]\<close>: the line of \<^verbatim>\<open>foo\<close> shows the nested
  list as the text \<^verbatim>\<open><builtins.list@0>\<close> of a carrier; the literal list is in no printed
  line, and the value returned is not the argument list with its nested list in place.
\<close>

theorem execute_command_dry_run_counterexample:
  "prints (trace (snd (execute_command ident0 dispatcher0 ''improver''
     [PStr ''foo'', PList [PStr ''bar'', PStr ''a'']] False True s0)))
   = [[PStr ''improver'', PStr ''bar'', PStr ''a'', PStr '' -> '', PStr ''<builtins.list@0>''],
      [PStr ''improver'', PStr ''foo'',
       PCarrier 0 ''<builtins.list@0>'' (PList [PStr ''bar'', PStr ''a'']),
       PStr '' -> '', PStr ''<builtins.list@0>'']]
   \<and> as_str (PCarrier 0 ''<builtins.list@0>'' (PList [PStr ''bar'', PStr ''a'']))
       = Some ''<builtins.list@0>''
   \<and> PList [PStr ''bar'', PStr ''a'']
       \<notin> set (concat (prints (trace (snd (execute_command ident0 dispatcher0 ''improver''
            [PStr ''foo'', PList [PStr ''bar'', PStr ''a'']] False True s0)))))
   \<and> fst (execute_command ident0 dispatcher0 ''improver''
            [PStr ''foo'', PList [PStr ''bar'', PStr ''a'']] False True s0)
       \<noteq> Inr (PList [PStr ''foo'', PList [PStr ''bar'', PStr ''a'']])"
  unfolding dry_example by (simp add: prints_def map_filter_def s0_def)

end
